theory Spec2Isabelle
  imports Complex_Main
begin

section \<open>Python values used by \<open>pypower/psse2case.py\<close>\<close>

text \<open>
  The exceptions the converter can raise.  The specification calls the failed
  header assertion \<open>FormatError\<close>; the code raises it with \<^verbatim>\<open>assert\<close>,
  so it is \<open>AssertionError\<close> here.  \<open>NotFinite\<close> is no exception of Python: it
  is where the model stops because \<^verbatim>\<open>float\<close> has returned \<^verbatim>\<open>inf\<close> or \<^verbatim>\<open>nan\<close>,
  which are no real numbers; the model says nothing of what the converter does
  with such a value.
\<close>

datatype error =
    StopIteration | IndexError | ValueError | AssertionError | TypeError | AttributeError
  | OverflowError | NotFinite

datatype level = INFO | WARNING | ERROR

text \<open>One constructor per call of \<^verbatim>\<open>logger.info/warning/error\<close> in the module,
  with the arguments of its format string.\<close>

datatype message =
    Loading string
  | ErrorOpening string
  | CommaDelimited
  | WhitespaceDelimited
  | NoVersionInfo int
  | VersionFound int
  | VersionUnsupported int
  | BusesFound nat
  | LoadsFound nat
  | GeneratorsFound nat
  | BranchesFound nat
  | BusNotFound string
  | ConstantCurrentIgnored real real string nat
  | ConstantAdmittanceIgnored real real string nat
  | LoadNotScaled string nat real

type_synonym event = "level \<times> message"

text \<open>
  A computation yields the log events it emitted, in order, and either the
  exception that ended it or its value.
\<close>

type_synonym 'a io = "event list \<times> (error + 'a)"

definition ret :: "'a \<Rightarrow> 'a io" where
  "ret x = ([], Inr x)"

definition raise :: "error \<Rightarrow> 'a io" where
  "raise e = ([], Inl e)"

definition logger :: "level \<Rightarrow> message \<Rightarrow> unit io" where
  "logger l m = ([(l, m)], Inr ())"

definition bindIO :: "'a io \<Rightarrow> ('a \<Rightarrow> 'b io) \<Rightarrow> 'b io" where
  "bindIO m f =
     (case m of
        (l, Inl e) \<Rightarrow> (l, Inl e)
      | (l, Inr x) \<Rightarrow> (case f x of (l', r) \<Rightarrow> (l @ l', r)))"

definition bindE :: "error + 'a \<Rightarrow> ('a \<Rightarrow> error + 'b) \<Rightarrow> error + 'b" where
  "bindE m f = (case m of Inl e \<Rightarrow> Inl e | Inr x \<Rightarrow> f x)"

definition lift :: "error + 'a \<Rightarrow> 'a io" where
  "lift m = ([], m)"

definition after :: "event list \<Rightarrow> 'a io \<Rightarrow> 'a io" where
  "after l m = (l @ fst m, snd m)"

subsection \<open>Strings\<close>

text \<open>\<^verbatim>\<open>str.strip()\<close> removes the six ASCII whitespace characters from both
  ends; \<^verbatim>\<open>s.strip("'")\<close> removes single quotes; \<^verbatim>\<open>s.split("/")[0]\<close> is the
  part of \<open>s\<close> before its first slash.\<close>

definition whitespace :: "char \<Rightarrow> bool" where
  "whitespace c = (c \<in> set [CHR '' '', CHR 0x09, CHR 0x0A, CHR 0x0B, CHR 0x0C, CHR 0x0D])"

definition strip_chars :: "(char \<Rightarrow> bool) \<Rightarrow> string \<Rightarrow> string" where
  "strip_chars p s = rev (dropWhile p (rev (dropWhile p s)))"

definition strip :: "string \<Rightarrow> string" where
  "strip s = strip_chars whitespace s"

definition strip_quote :: "string \<Rightarrow> string" where
  "strip_quote s = strip_chars (\<lambda>c. c = CHR 0x27) s"

definition before_slash :: "string \<Rightarrow> string" where
  "before_slash s = takeWhile (\<lambda>c. c \<noteq> CHR ''/'') s"

text \<open>\<^verbatim>\<open>row[k]\<close> for a constant \<open>k \<ge> 0\<close>: \<open>IndexError\<close> past the end.\<close>

definition item :: "'a list \<Rightarrow> nat \<Rightarrow> error + 'a" where
  "item xs k = (if k < length xs then Inr (xs ! k) else Inl IndexError)"

subsection \<open>\<^verbatim>\<open>int()\<close> and \<^verbatim>\<open>float()\<close> on text\<close>

text \<open>
  Both builtins strip surrounding whitespace and raise \<open>ValueError\<close> on text
  that is not a number.  The model reads decimal literals: an optional sign
  and digits for \<^verbatim>\<open>int\<close>; an optional sign, digits with an optional fraction,
  and an optional exponent for \<^verbatim>\<open>float\<close>.  A float is represented by a real
  number: zero for a literal that underflows, the number the literal denotes
  otherwise, its rounding to the 53 bits of a double left out.  On the texts
  \<^verbatim>\<open>inf\<close>, \<^verbatim>\<open>infinity\<close> and \<^verbatim>\<open>nan\<close> (in any case, signed or not) and on a
  literal that overflows, \<^verbatim>\<open>float\<close> returns a value that is no real number
  and the model stops with \<open>NotFinite\<close>.  The converter only stores what
  \<^verbatim>\<open>float\<close> returns and compares it with zero and one.
\<close>

definition is_digit :: "char \<Rightarrow> bool" where
  "is_digit c = (c \<in> set ''0123456789'')"

definition digit_val :: "char \<Rightarrow> nat" where
  "digit_val c = length (takeWhile (\<lambda>d. d \<noteq> c) ''0123456789'')"

definition digits_val :: "string \<Rightarrow> nat" where
  "digits_val ds = foldl (\<lambda>a c. 10 * a + digit_val c) 0 ds"

text \<open>An optional sign and at least one digit, nothing else.\<close>

definition signed_digits :: "string \<Rightarrow> int option" where
  "signed_digits t =
     (let neg = (take 1 t = ''-'');
          ds = (if take 1 t = ''-'' \<or> take 1 t = ''+'' then drop 1 t else t)
      in if ds \<noteq> [] \<and> list_all is_digit ds
         then Some (if neg then - int (digits_val ds) else int (digits_val ds))
         else None)"

definition py_int :: "string \<Rightarrow> error + int" where
  "py_int s = (case signed_digits (strip s) of None \<Rightarrow> Inl ValueError | Some n \<Rightarrow> Inr n)"

definition is_exp :: "char \<Rightarrow> bool" where
  "is_exp c = (c = CHR ''e'' \<or> c = CHR ''E'')"

text \<open>The mantissa \<open>digits[.digits]\<close> or \<open>.digits\<close>, with at least one digit.\<close>

definition mantissa :: "string \<Rightarrow> real option" where
  "mantissa m =
     (let ip = takeWhile is_digit m;
          r = dropWhile is_digit m;
          fp = (if take 1 r = ''.'' then drop 1 r else r)
      in if (r = [] \<or> take 1 r = ''.'') \<and> list_all is_digit fp \<and> ip @ fp \<noteq> []
         then Some (real (digits_val (ip @ fp)) / 10 ^ length fp)
         else None)"

text \<open>The letters of a text in lower case.\<close>

definition to_lower :: "char \<Rightarrow> char" where
  "to_lower c =
     (case map_of (zip ''ABCDEFGHIJKLMNOPQRSTUVWXYZ'' ''abcdefghijklmnopqrstuvwxyz'') c of
        None \<Rightarrow> c
      | Some l \<Rightarrow> l)"

text \<open>The double for the number \<open>x\<close> of a literal: from \<^verbatim>\<open>2**1024 - 2**970\<close> on the
  literal rounds to \<^verbatim>\<open>inf\<close>, up to \<^verbatim>\<open>2**-1075\<close> it rounds to zero.\<close>

definition to_double :: "real \<Rightarrow> error + real" where
  "to_double x =
     (if 2 ^ 1024 - 2 ^ 970 \<le> \<bar>x\<bar> then Inl NotFinite
      else if \<bar>x\<bar> \<le> 1 / 2 ^ 1075 then Inr 0
      else Inr x)"

definition py_float :: "string \<Rightarrow> error + real" where
  "py_float s =
     (let t = strip s;
          neg = (take 1 t = ''-'');
          u = (if take 1 t = ''-'' \<or> take 1 t = ''+'' then drop 1 t else t);
          m = takeWhile (\<lambda>c. \<not> is_exp c) u;
          x = dropWhile (\<lambda>c. \<not> is_exp c) u
      in if map to_lower u \<in> set [''inf'', ''infinity'', ''nan''] then Inl NotFinite
         else
           case mantissa m of
             None \<Rightarrow> Inl ValueError
           | Some v \<Rightarrow>
               (case (if x = [] then Some 0 else signed_digits (drop 1 x)) of
                  None \<Rightarrow> Inl ValueError
                | Some e \<Rightarrow>
                    to_double ((if neg then - v else v)
                       * (if 0 \<le> e then 10 ^ nat e else 1 / 10 ^ nat (- e)))))"

definition float_at :: "string list \<Rightarrow> nat \<Rightarrow> error + real" where
  "float_at row k = bindE (item row k) py_float"

text \<open>\<^verbatim>\<open>rec[0, k] = int(row[j])\<close> stores the integer into a matrix of doubles:
  \<open>OverflowError\<close> for an integer that rounds beyond the largest double.\<close>

definition int_at :: "string list \<Rightarrow> nat \<Rightarrow> error + real" where
  "int_at row k =
     bindE (bindE (item row k) py_int) (\<lambda>n.
       if 2 ^ 1024 - 2 ^ 970 \<le> \<bar>n\<bar> then Inl OverflowError else Inr (real_of_int n))"


section \<open>Input streams\<close>

text \<open>
  The converter reads its input twice over: \<^verbatim>\<open>_delimiter\<close> takes the first
  physical line, everything else goes through
  \<^verbatim>\<open>csv.reader(fd, delimiter=sep, skipinitialspace=True)\<close>, started anew at
  position 0.  A stream is therefore its list of lines together with the rows
  the csv reader yields from it under a given delimiter.  The reader objects
  handed to the section readers are the rows not yet consumed; each section
  reader returns the rows it leaves.
\<close>

record stream =
  lines :: "string list"
  rows :: "char \<Rightarrow> string list list"

datatype fileobj = NoneObj | File stream

text \<open>\<^verbatim>\<open>fd.seek(0)\<close>: \<open>None\<close> has no attribute \<open>seek\<close>.\<close>

definition seek :: "fileobj \<Rightarrow> stream io" where
  "seek fd = (case fd of NoneObj \<Rightarrow> raise AttributeError | File s \<Rightarrow> ret s)"

text \<open>\<^verbatim>\<open>reader.next()\<close>\<close>

definition next_row :: "string list list \<Rightarrow> (string list \<times> string list list) io" where
  "next_row reader =
     (case reader of [] \<Rightarrow> raise StopIteration | r # rest \<Rightarrow> ret (r, rest))"

section \<open>Format sniffing\<close>

definition DEFAULT_VERSION :: int where
  "DEFAULT_VERSION = 30"

definition SUPPORTED_VERSIONS :: "int list" where
  "SUPPORTED_VERSIONS = [29, 30, 31, 32]"

text \<open>\<^verbatim>\<open>_delimiter(fd)\<close>\<close>

definition sniff_delimiter :: "fileobj \<Rightarrow> char io" where
  "sniff_delimiter fd =
     bindIO (seek fd) (\<lambda>s.
       case lines s of
         [] \<Rightarrow> raise StopIteration
       | l # _ \<Rightarrow>
           if CHR '','' \<in> set (before_slash l)
           then bindIO (logger INFO CommaDelimited) (\<lambda>_. ret (CHR '',''))
           else bindIO (logger INFO WhitespaceDelimited) (\<lambda>_. ret (CHR '' '')))"

text \<open>\<^verbatim>\<open>_version(fd, delimiter)\<close>\<close>

definition sniff_version :: "fileobj \<Rightarrow> char \<Rightarrow> int io" where
  "sniff_version fd delimiter =
     bindIO (seek fd) (\<lambda>s.
     bindIO (next_row (rows s delimiter)) (\<lambda>(h0, _).
       if length h0 < 3
       then bindIO (logger INFO (NoVersionInfo DEFAULT_VERSION)) (\<lambda>_. ret DEFAULT_VERSION)
       else
         bindIO (lift (if CHR ''/'' \<in> set (h0 ! 2)
                       then py_int (strip (before_slash (h0 ! 2)))
                       else py_int (h0 ! 2))) (\<lambda>version.
         bindIO (logger INFO (VersionFound version)) (\<lambda>_.
           if version \<in> set SUPPORTED_VERSIONS then ret version
           else bindIO (logger WARNING (VersionUnsupported version))
                  (\<lambda>_. ret DEFAULT_VERSION)))))"

section \<open>Section readers\<close>

text \<open>The numeric tables are \<^verbatim>\<open>numpy\<close> matrices: a list of rows of equal width.
  \<open>store\<close> is \<^verbatim>\<open>a[i, k] = v\<close> and \<open>fetch\<close> is \<^verbatim>\<open>a[i, k]\<close> for indices that are
  not negative.\<close>

type_synonym table = "real list list"

definition zeros :: "nat \<Rightarrow> real list" where
  "zeros n = replicate n 0"

definition store :: "table \<Rightarrow> nat \<Rightarrow> nat \<Rightarrow> real \<Rightarrow> error + table" where
  "store a i k v =
     (if i < length a \<and> k < length (a ! i) then Inr (a[i := (a ! i)[k := v]])
      else Inl IndexError)"

definition fetch :: "table \<Rightarrow> nat \<Rightarrow> nat \<Rightarrow> error + real" where
  "fetch a i k =
     (if i < length a \<and> k < length (a ! i) then Inr (a ! i ! k) else Inl IndexError)"

text \<open>\<^verbatim>\<open>rec[0, k] = float(row[j])\<close> and \<^verbatim>\<open>rec[0, k] = int(row[j])\<close>\<close>

definition set_float :: "real list \<Rightarrow> nat \<Rightarrow> string list \<Rightarrow> nat \<Rightarrow> error + real list" where
  "set_float rec k row j = bindE (float_at row j) (\<lambda>v. Inr (rec[k := v]))"

definition set_int :: "real list \<Rightarrow> nat \<Rightarrow> string list \<Rightarrow> nat \<Rightarrow> error + real list" where
  "set_int rec k row j = bindE (int_at row j) (\<lambda>v. Inr (rec[k := v]))"

text \<open>The loop test \<^verbatim>\<open>row[0].split("/")[0].strip() != "0"\<close>, on the first field.\<close>

definition terminator :: "string \<Rightarrow> bool" where
  "terminator f = (strip (before_slash f) = ''0'')"

subsection \<open>Header\<close>

text \<open>\<^verbatim>\<open>_parse_header(reader)\<close>\<close>

definition parse_header :: "string list list \<Rightarrow> (real \<times> string list list) io" where
  "parse_header reader =
     bindIO (next_row reader) (\<lambda>(h0, reader).
     bindIO (next_row reader) (\<lambda>(_, reader).
     bindIO (next_row reader) (\<lambda>(_, reader).
     bindIO (lift (item h0 0)) (\<lambda>ic.
       if ic = ''0'' \<or> ic = ''1''
       then bindIO (lift (float_at h0 1)) (\<lambda>baseMVA. ret (baseMVA, reader))
       else raise AssertionError))))"

subsection \<open>Buses\<close>

text \<open>The body of the loop of \<^verbatim>\<open>_parse_buses\<close> that fills the 13 columns
  \<open>bus_i type Pd Qd Gs Bs area Vm Va baseKV zone Vmax Vmin\<close>.\<close>

definition bus_record :: "int \<Rightarrow> string list \<Rightarrow> error + real list" where
  "bus_record version busdata =
     bindE (set_int (zeros 13) 0 busdata 0) (\<lambda>bus.
     bindE (set_float bus 1 busdata 3) (\<lambda>bus.
     bindE (Inr (bus[2 := 0, 3 := 0])) (\<lambda>bus.
     bindE (if version \<in> set [29, 30] then
              bindE (set_float bus 4 busdata 4) (\<lambda>bus.
              bindE (set_float bus 5 busdata 5) (\<lambda>bus.
              bindE (set_int bus 6 busdata 6) (\<lambda>bus.
              bindE (set_float bus 7 busdata 8) (\<lambda>bus.
              bindE (set_float bus 8 busdata 9) (\<lambda>bus.
              set_float bus 10 busdata 7)))))
            else if version \<in> set [31, 32] then
              bindE (set_int bus 6 busdata 4) (\<lambda>bus.
              bindE (set_float bus 7 busdata 7) (\<lambda>bus.
              bindE (set_float bus 8 busdata 8) (\<lambda>bus.
              set_float bus 10 busdata 5)))
            else Inr bus) (\<lambda>bus.
     bindE (set_float bus 9 busdata 2) (\<lambda>bus.
     Inr (bus[11 := 11 / 10, 12 := 9 / 10]))))))"

text \<open>The \<^verbatim>\<open>while\<close> loop of \<^verbatim>\<open>_parse_buses\<close>: \<open>busdata\<close> is the row at hand,
  \<open>reader\<close> the rows after it, \<open>c\<close> the number of buses so far.\<close>

fun parse_buses_loop ::
  "int \<Rightarrow> string list \<Rightarrow> string list list \<Rightarrow> table \<Rightarrow> (string \<rightharpoonup> nat) \<Rightarrow> nat \<Rightarrow>
   (table \<times> (string \<rightharpoonup> nat) \<times> nat \<times> string list list) io" where
  "parse_buses_loop version busdata reader buses busmap c =
     (case item busdata 0 of
        Inl e \<Rightarrow> raise e
      | Inr i \<Rightarrow>
          if terminator i then ret (buses, busmap, c, reader)
          else
            (case item busdata 1 of
               Inl e \<Rightarrow> raise e
             | Inr name \<Rightarrow>
                 (case bus_record version busdata of
                    Inl e \<Rightarrow> raise e
                  | Inr bus \<Rightarrow>
                      (case reader of
                         [] \<Rightarrow> raise StopIteration
                       | busdata' # reader' \<Rightarrow>
                           parse_buses_loop version busdata' reader' (buses @ [bus])
                             (busmap(i \<mapsto> c, strip_quote name \<mapsto> c)) (Suc c)))))"

text \<open>\<^verbatim>\<open>_parse_buses(reader, version)\<close>\<close>

definition parse_buses ::
  "string list list \<Rightarrow> int \<Rightarrow> (table \<times> (string \<rightharpoonup> nat) \<times> string list list) io" where
  "parse_buses reader version =
     bindIO (next_row reader) (\<lambda>(busdata, reader).
     bindIO (parse_buses_loop version busdata reader [] Map.empty 0) (\<lambda>(buses, busmap, c, reader).
     bindIO (logger INFO (BusesFound c)) (\<lambda>_.
     ret (buses, busmap, reader))))"

subsection \<open>Bus lookup\<close>

text \<open>\<^verbatim>\<open>_busidx(i, busmap)\<close>\<close>

definition busidx :: "string \<Rightarrow> (string \<rightharpoonup> nat) \<Rightarrow> nat option io" where
  "busidx i busmap =
     (case busmap (strip_quote i) of
        Some idx \<Rightarrow> ret (Some idx)
      | None \<Rightarrow> bindIO (logger ERROR (BusNotFound (strip_quote i))) (\<lambda>_. ret None))"

subsection \<open>Loads\<close>

text \<open>Python's truth value of a string (\<^verbatim>\<open>bool(s)\<close>: not empty) and of a float
  (\<^verbatim>\<open>if x\<close>: not zero).\<close>

definition bool_str :: "string \<Rightarrow> bool" where
  "bool_str s = (s \<noteq> [])"

definition truthy :: "real \<Rightarrow> bool" where
  "truthy x = (x \<noteq> 0)"

text \<open>The body of the loop of \<^verbatim>\<open>_parse_loads\<close>; the bus table is updated in
  place by the source, and returned here.\<close>

definition load_row ::
  "string list \<Rightarrow> table \<Rightarrow> (string \<rightharpoonup> nat) \<Rightarrow> int \<Rightarrow> table io" where
  "load_row loaddata bus busmap version =
     bindIO (lift (item loaddata 2)) (\<lambda>st.
     bindIO (lift (item loaddata 0)) (\<lambda>i.
     bindIO (busidx i busmap) (\<lambda>found.
       case found of
         None \<Rightarrow> ret bus
       | Some idx \<Rightarrow>
           if bool_str st then
             bindIO (lift (bindE (float_at loaddata 5) (store bus idx 2))) (\<lambda>bus.
             bindIO (lift (bindE (float_at loaddata 6) (store bus idx 3))) (\<lambda>bus.
             bindIO (lift (float_at loaddata 7)) (\<lambda>Ip.
             bindIO (lift (float_at loaddata 8)) (\<lambda>Iq.
             bindIO (if truthy Ip \<or> truthy Iq
                     then logger WARNING (ConstantCurrentIgnored Ip Iq i idx)
                     else ret ()) (\<lambda>_.
             bindIO (lift (float_at loaddata 9)) (\<lambda>Yp.
             bindIO (lift (float_at loaddata 10)) (\<lambda>Yq.
             bindIO (if truthy Yp \<or> truthy Yq
                     then logger WARNING (ConstantAdmittanceIgnored Yp Yq i idx)
                     else ret ()) (\<lambda>_.
             bindIO (if version = 32 then
                       bindIO (lift (float_at loaddata 12)) (\<lambda>scale.
                         if scale \<noteq> 0 \<or> scale \<noteq> 1
                         then logger WARNING (LoadNotScaled i idx scale)
                         else ret ())
                     else ret ()) (\<lambda>_.
             ret bus)))))))))
           else ret bus)))"

fun parse_loads_loop ::
  "int \<Rightarrow> (string \<rightharpoonup> nat) \<Rightarrow> string list \<Rightarrow> string list list \<Rightarrow> table \<Rightarrow> nat \<Rightarrow>
   (table \<times> nat \<times> string list list) io" where
  "parse_loads_loop version busmap loaddata reader bus c =
     (case item loaddata 0 of
        Inl e \<Rightarrow> raise e
      | Inr i \<Rightarrow>
          if terminator i then ret (bus, c, reader)
          else
            (case load_row loaddata bus busmap version of
               (l, Inl e) \<Rightarrow> (l, Inl e)
             | (l, Inr bus') \<Rightarrow>
                 (case reader of
                    [] \<Rightarrow> (l, Inl StopIteration)
                  | loaddata' # reader' \<Rightarrow>
                      after l (parse_loads_loop version busmap loaddata' reader' bus' (Suc c)))))"

text \<open>\<^verbatim>\<open>_parse_loads(reader, bus, busmap, version)\<close>\<close>

definition parse_loads ::
  "string list list \<Rightarrow> table \<Rightarrow> (string \<rightharpoonup> nat) \<Rightarrow> int \<Rightarrow> (table \<times> string list list) io" where
  "parse_loads reader bus busmap version =
     bindIO (next_row reader) (\<lambda>(loaddata, reader).
     bindIO (parse_loads_loop version busmap loaddata reader bus 0) (\<lambda>(bus, c, reader).
     bindIO (logger INFO (LoadsFound c)) (\<lambda>_.
     ret (bus, reader))))"

subsection \<open>Generators\<close>

text \<open>The 21 columns \<open>bus Pg Qg Qmax Qmin Vg mBase status Pmax Pmin Pc1 Pc2 Qc1min
  Qc1max Qc2min Qc2max ramp_agc ramp_10 ramp_30 ramp_q apf\<close>, as the loop of
  \<^verbatim>\<open>_parse_generators\<close> fills them.\<close>

definition gen_record :: "string list \<Rightarrow> error + real list" where
  "gen_record gendata =
     bindE (set_float (zeros 21) 1 gendata 2) (\<lambda>gen.
     bindE (set_float gen 2 gendata 3) (\<lambda>gen.
     bindE (set_float gen 3 gendata 4) (\<lambda>gen.
     bindE (set_float gen 4 gendata 5) (\<lambda>gen.
     bindE (set_float gen 5 gendata 6) (\<lambda>gen.
     bindE (set_float gen 6 gendata 8) (\<lambda>gen.
     bindE (set_float gen 7 gendata 14) (\<lambda>gen.
     bindE (set_float gen 8 gendata 16) (\<lambda>gen.
     set_float gen 9 gendata 17))))))))"

definition gen_row :: "string list \<Rightarrow> (string \<rightharpoonup> nat) \<Rightarrow> table \<Rightarrow> table io" where
  "gen_row gendata busmap generators =
     bindIO (lift (item gendata 0)) (\<lambda>i.
     bindIO (busidx i busmap) (\<lambda>found.
       case found of
         None \<Rightarrow> ret generators
       | Some idx \<Rightarrow>
           bindIO (lift (gen_record gendata)) (\<lambda>gen. ret (generators @ [gen]))))"

fun parse_generators_loop ::
  "(string \<rightharpoonup> nat) \<Rightarrow> string list \<Rightarrow> string list list \<Rightarrow> table \<Rightarrow> nat \<Rightarrow>
   (table \<times> nat \<times> string list list) io" where
  "parse_generators_loop busmap gendata reader generators c =
     (case item gendata 0 of
        Inl e \<Rightarrow> raise e
      | Inr i \<Rightarrow>
          if terminator i then ret (generators, c, reader)
          else
            (case gen_row gendata busmap generators of
               (l, Inl e) \<Rightarrow> (l, Inl e)
             | (l, Inr generators') \<Rightarrow>
                 (case reader of
                    [] \<Rightarrow> (l, Inl StopIteration)
                  | gendata' # reader' \<Rightarrow>
                      after l (parse_generators_loop busmap gendata' reader' generators' (Suc c)))))"

text \<open>\<^verbatim>\<open>_parse_generators(reader, busmap)\<close>\<close>

definition parse_generators ::
  "string list list \<Rightarrow> (string \<rightharpoonup> nat) \<Rightarrow> (table \<times> string list list) io" where
  "parse_generators reader busmap =
     bindIO (next_row reader) (\<lambda>(gendata, reader).
     bindIO (parse_generators_loop busmap gendata reader [] 0) (\<lambda>(generators, c, reader).
     bindIO (logger INFO (GeneratorsFound c)) (\<lambda>_.
     ret (generators, reader))))"

subsection \<open>Non-transformer branches\<close>

text \<open>The 13 columns \<open>fbus tbus r x b rateA rateB rateC ratio angle status angmin
  angmax\<close>, as the loop of \<^verbatim>\<open>_parse_nontransformer_branches\<close> fills them:
  \<^verbatim>\<open>brch[0, 0] = bus[fbus, 0]\<close> and \<^verbatim>\<open>brch[0, 1] = bus[tbus, 1]\<close>.\<close>

definition branch_record :: "string list \<Rightarrow> table \<Rightarrow> nat \<Rightarrow> nat \<Rightarrow> error + real list" where
  "branch_record brchdata bus fbus tbus =
     bindE (fetch bus fbus 0) (\<lambda>v. bindE (Inr ((zeros 13)[0 := v])) (\<lambda>brch.
     bindE (fetch bus tbus 1) (\<lambda>v. bindE (Inr (brch[1 := v])) (\<lambda>brch.
     bindE (set_float brch 2 brchdata 3) (\<lambda>brch.
     bindE (set_float brch 3 brchdata 4) (\<lambda>brch.
     bindE (set_float brch 4 brchdata 5) (\<lambda>brch.
     bindE (set_float brch 5 brchdata 6) (\<lambda>brch.
     bindE (set_float brch 6 brchdata 7) (\<lambda>brch.
     bindE (set_float brch 7 brchdata 8) (\<lambda>brch.
     bindE (set_float brch 10 brchdata 13) (\<lambda>brch.
     Inr (brch[11 := - 360, 12 := 360]))))))))))))"

definition branch_row ::
  "string list \<Rightarrow> table \<Rightarrow> (string \<rightharpoonup> nat) \<Rightarrow> table \<Rightarrow> table io" where
  "branch_row brchdata bus busmap branches =
     bindIO (lift (item brchdata 0)) (\<lambda>i.
     bindIO (busidx i busmap) (\<lambda>fbus.
     bindIO (lift (item brchdata 1)) (\<lambda>j.
     bindIO (busidx j busmap) (\<lambda>tbus.
       case fbus of
         None \<Rightarrow> ret branches
       | Some f \<Rightarrow>
           (case tbus of
              None \<Rightarrow> ret branches
            | Some t \<Rightarrow>
                bindIO (lift (branch_record brchdata bus f t))
                  (\<lambda>brch. ret (branches @ [brch])))))))"

fun parse_branches_loop ::
  "table \<Rightarrow> (string \<rightharpoonup> nat) \<Rightarrow> string list \<Rightarrow> string list list \<Rightarrow> table \<Rightarrow> nat \<Rightarrow>
   (table \<times> nat \<times> string list list) io" where
  "parse_branches_loop bus busmap brchdata reader branches c =
     (case item brchdata 0 of
        Inl e \<Rightarrow> raise e
      | Inr i \<Rightarrow>
          if terminator i then ret (branches, c, reader)
          else
            (case branch_row brchdata bus busmap branches of
               (l, Inl e) \<Rightarrow> (l, Inl e)
             | (l, Inr branches') \<Rightarrow>
                 (case reader of
                    [] \<Rightarrow> (l, Inl StopIteration)
                  | brchdata' # reader' \<Rightarrow>
                      after l (parse_branches_loop bus busmap brchdata' reader' branches' (Suc c)))))"

text \<open>\<^verbatim>\<open>_parse_nontransformer_branches(reader, bus, busmap)\<close>\<close>

definition parse_nontransformer_branches ::
  "string list list \<Rightarrow> table \<Rightarrow> (string \<rightharpoonup> nat) \<Rightarrow> (table \<times> string list list) io" where
  "parse_nontransformer_branches reader bus busmap =
     bindIO (next_row reader) (\<lambda>(brchdata, reader).
     bindIO (parse_branches_loop bus busmap brchdata reader [] 0) (\<lambda>(branches, c, reader).
     bindIO (logger INFO (BranchesFound c)) (\<lambda>_.
     ret (branches, reader))))"

subsection \<open>Transformers and shunts\<close>

text \<open>\<^verbatim>\<open>_parse_transformers(reader, branch, version, busmap)\<close> and
  \<^verbatim>\<open>_parse_shunt(reader)\<close>: both bodies are \<^verbatim>\<open>pass\<close>.\<close>

definition parse_transformers ::
  "string list list \<Rightarrow> table \<Rightarrow> int option \<Rightarrow> (string \<rightharpoonup> nat) \<Rightarrow> unit io" where
  "parse_transformers reader branch version busmap = ret ()"

definition parse_shunt :: "string list list \<Rightarrow> unit io" where
  "parse_shunt reader = ret ()"

section \<open>The file parser\<close>

text \<open>
  A call binds its positional arguments to the parameters of the \<^verbatim>\<open>def\<close>; a
  call whose arguments do not fit the parameter list raises \<open>TypeError\<close>
  before the body runs.  The two functions below are the ones
  \<^verbatim>\<open>_parse_file\<close> calls with a number of arguments other than their \<^verbatim>\<open>def\<close>
  declares: \<^verbatim>\<open>def _parse_generators(reader, busmap)\<close> and
  \<^verbatim>\<open>def _parse_shunt(reader)\<close>.
\<close>

datatype arg = Reader "string list list" | BusData table | BusMap "string \<rightharpoonup> nat"

fun call_parse_generators :: "arg list \<Rightarrow> (table \<times> string list list) io" where
  "call_parse_generators [Reader reader, BusMap busmap] = parse_generators reader busmap"
| "call_parse_generators args = raise TypeError"

fun call_parse_shunt :: "arg list \<Rightarrow> unit io" where
  "call_parse_shunt [Reader reader] = parse_shunt reader"
| "call_parse_shunt args = raise TypeError"

record ppc =
  ppc_baseMVA :: real
  ppc_bus :: table
  ppc_gen :: table
  ppc_branch :: table

text \<open>\<^verbatim>\<open>_parse_file(fd, version, delimiter)\<close>.  The section readers that do not
  fail leave the shared reader where they stopped; the loads reader leaves the
  bus table it updated.\<close>

definition parse_file :: "fileobj \<Rightarrow> int option \<Rightarrow> char option \<Rightarrow> ppc io" where
  "parse_file fd version delimiter =
     bindIO (case delimiter of None \<Rightarrow> sniff_delimiter fd | Some d \<Rightarrow> ret d) (\<lambda>sep.
     bindIO (case version of None \<Rightarrow> sniff_version fd sep | Some v \<Rightarrow> ret v) (\<lambda>rev.
     bindIO (seek fd) (\<lambda>s.
     bindIO (parse_header (rows s sep)) (\<lambda>(baseMVA, reader).
     bindIO (parse_buses reader rev) (\<lambda>(busdata, busmap, reader).
     bindIO (parse_loads reader busdata busmap rev) (\<lambda>(busdata, reader).
     bindIO (if rev \<in> set [31, 32] then call_parse_shunt [Reader reader] else ret ()) (\<lambda>_.
     bindIO (call_parse_generators [Reader reader]) (\<lambda>(gendata, reader).
     bindIO (parse_nontransformer_branches reader busdata busmap) (\<lambda>(branchdata, reader).
     bindIO (parse_transformers reader branchdata version busmap) (\<lambda>_.
     bindIO (if rev \<in> set [29, 30] then call_parse_shunt [Reader reader, BusData busdata]
             else ret ()) (\<lambda>_.
     ret \<lparr>ppc_baseMVA = baseMVA, ppc_bus = busdata, ppc_gen = gendata,
          ppc_branch = branchdata\<rparr>)))))))))))"

section \<open>The entry point\<close>

text \<open>
  \<^verbatim>\<open>psse2case(casefile, version, delimiter)\<close> takes a dict, a path or any other
  object.  \<open>fs\<close> is the file system: the paths that \<^verbatim>\<open>open\<close> can open, with their
  contents.  In the path branch the \<^verbatim>\<open>finally\<close> clause runs on both ways out of
  the \<^verbatim>\<open>try\<close>; its test \<^verbatim>\<open>file is not None\<close> is about the builtin \<^verbatim>\<open>file\<close>
  and always holds, so \<^verbatim>\<open>_parse_file(fd, ...)\<close> and \<^verbatim>\<open>fd.close()\<close> run with
  \<^verbatim>\<open>fd = None\<close> after a failed \<^verbatim>\<open>open\<close>, and an exception they raise replaces
  the pending \<^verbatim>\<open>return None\<close>.
\<close>

datatype casefile = CaseDict ppc | CasePath string | CaseOther fileobj

definition basename :: "string \<Rightarrow> string" where
  "basename p = rev (takeWhile (\<lambda>c. c \<noteq> CHR ''/'') (rev p))"

definition close :: "fileobj \<Rightarrow> unit io" where
  "close fd = (case fd of NoneObj \<Rightarrow> raise AttributeError | File s \<Rightarrow> ret ())"

definition psse2case ::
  "(string \<rightharpoonup> stream) \<Rightarrow> casefile \<Rightarrow> int option \<Rightarrow> char option \<Rightarrow> ppc option io" where
  "psse2case fs casefile version delimiter =
     (case casefile of
        CaseDict ppc \<Rightarrow> ret (Some ppc)
      | CasePath path \<Rightarrow>
          bindIO (logger INFO (Loading (basename path))) (\<lambda>_.
            case fs path of
              None \<Rightarrow>
                bindIO (logger ERROR (ErrorOpening (basename path))) (\<lambda>_.
                bindIO (parse_file NoneObj version delimiter) (\<lambda>ppc.
                bindIO (close NoneObj) (\<lambda>_.
                ret None)))
            | Some s \<Rightarrow>
                bindIO (parse_file (File s) version delimiter) (\<lambda>ppc.
                bindIO (close (File s)) (\<lambda>_.
                ret (Some ppc))))
      | CaseOther fd \<Rightarrow>
          bindIO (parse_file fd version delimiter) (\<lambda>ppc. ret (Some ppc)))"

section \<open>Auxiliary definitions for the properties\<close>

text \<open>The part of \<^verbatim>\<open>_parse_file\<close> that runs before the call of
  \<^verbatim>\<open>_parse_generators\<close>: sniffing, the header, the buses, the loads and, for
  revisions 31 and 32, the shunt section.\<close>

definition before_generators :: "fileobj \<Rightarrow> int option \<Rightarrow> char option \<Rightarrow> unit io" where
  "before_generators fd version delimiter =
     bindIO (case delimiter of None \<Rightarrow> sniff_delimiter fd | Some d \<Rightarrow> ret d) (\<lambda>sep.
     bindIO (case version of None \<Rightarrow> sniff_version fd sep | Some v \<Rightarrow> ret v) (\<lambda>rev.
     bindIO (seek fd) (\<lambda>s.
     bindIO (parse_header (rows s sep)) (\<lambda>(baseMVA, reader).
     bindIO (parse_buses reader rev) (\<lambda>(busdata, busmap, reader).
     bindIO (parse_loads reader busdata busmap rev) (\<lambda>(busdata, reader).
     if rev \<in> set [31, 32] then call_parse_shunt [Reader reader] else ret ()))))))"

subsection \<open>Concrete inputs\<close>

text \<open>A comma-separated file given by its rows: the csv reader yields the rows
  back under the delimiter \<open>,\<close> and, the fields holding no other delimiter,
  one field per line under any other.\<close>

definition quoted :: "string \<Rightarrow> string" where
  "quoted s = CHR 0x27 # s @ [CHR 0x27]"

fun comma_line :: "string list \<Rightarrow> string" where
  "comma_line [] = []"
| "comma_line [f] = f"
| "comma_line (f # g # fs) = f @ '','' @ comma_line (g # fs)"

definition comma_stream :: "string list list \<Rightarrow> stream" where
  "comma_stream rs =
     \<lparr>lines = map comma_line rs,
      rows = (\<lambda>d. if d = CHR '','' then rs else map (\<lambda>l. [l]) (map comma_line rs))\<rparr>"

text \<open>The minimal file of the specification's round-trip scenario: the header
  row, two bus rows and a terminator, one load row at bus 2 (PL 10, QL 5, in
  service) and a terminator, no generator row and a terminator, one branch
  row from bus 1 to bus 2 and a terminator.  The columns the scenario leaves
  open are filled with revision-30 values.\<close>

definition scenario_header :: "string list" where
  "scenario_header = [''1'', ''100'', ''30'']"

definition scenario_sections :: "string list list" where
  "scenario_sections =
     [[''1'', quoted ''BUS1'', ''345'', ''3'', ''0'', ''0'', ''1'', ''1'', ''1.0'', ''0'', ''1''],
      [''2'', quoted ''BUS2'', ''345'', ''1'', ''0'', ''0'', ''1'', ''1'', ''1.0'', ''0'', ''1''],
      [''0''],
      [''2'', ''1'', ''1'', ''1'', ''1'', ''10'', ''5'', ''0'', ''0'', ''0'', ''0'', ''1''],
      [''0''],
      [''0''],
      [''1'', ''2'', ''1'', ''0.01'', ''0.1'', ''0.02'', ''250'', ''250'', ''250'',
       ''0'', ''0'', ''0'', ''0'', ''1'', ''1.0''],
      [''0'']]"

text \<open>The scenario as the specification words it, with one header row, and
  with the two title rows that the header reader also consumes.\<close>

definition scenario_file :: stream where
  "scenario_file = comma_stream (scenario_header # scenario_sections)"

definition scenario_file3 :: stream where
  "scenario_file3 =
     comma_stream (scenario_header # [''title 1''] # [''title 2''] # scenario_sections)"

text \<open>The decimal text of each supported revision.\<close>

definition supported_text :: "(int \<times> string) list" where
  "supported_text = [(29, ''29''), (30, ''30''), (31, ''31''), (32, ''32'')]"

text \<open>The round-trip file with a header row whose first field is neither \<open>0\<close>
  nor \<open>1\<close>.\<close>

definition bad_header_file :: stream where
  "bad_header_file =
     comma_stream ([''2'', ''100'', ''30''] # [''title 1''] # [''title 2''] # scenario_sections)"

text \<open>Two files whose first field is \<open>2\<close>: one of two rows only, and the
  round-trip file with the third header field \<open>30.0\<close>.\<close>

definition short_header_file :: stream where
  "short_header_file = comma_stream [[''2'', ''100'', ''30''], [''title 1'']]"

definition float_revision_file :: stream where
  "float_revision_file =
     comma_stream ([''2'', ''100'', ''30.0''] # [''title 1''] # [''title 2''] # scenario_sections)"

subsection \<open>Rows of a section\<close>

text \<open>A data row has a first field that does not end the section; a terminator
  row has one that does.  A bus id resolves when, its quotes stripped, it is a
  key of the bus index table; \<open>not_found_log\<close> is what \<^verbatim>\<open>_busidx\<close> logs for
  it.\<close>

definition data_row :: "string list \<Rightarrow> bool" where
  "data_row row = (case row of [] \<Rightarrow> False | f # _ \<Rightarrow> \<not> terminator f)"

definition terminator_row :: "string list \<Rightarrow> bool" where
  "terminator_row row = (case row of [] \<Rightarrow> False | f # _ \<Rightarrow> terminator f)"

definition resolves :: "(string \<rightharpoonup> nat) \<Rightarrow> string \<Rightarrow> bool" where
  "resolves busmap i = (busmap (strip_quote i) \<noteq> None)"

definition not_found_log :: "(string \<rightharpoonup> nat) \<Rightarrow> string \<Rightarrow> event list" where
  "not_found_log busmap i =
     (if resolves busmap i then [] else [(ERROR, BusNotFound (strip_quote i))])"

text \<open>The generator records, in the words of the specification: the nine
  columns read from the row, the eleven capability-curve and ramp-rate columns
  zero.\<close>

definition gen_resolves :: "(string \<rightharpoonup> nat) \<Rightarrow> string list \<Rightarrow> bool" where
  "gen_resolves busmap row = resolves busmap (hd row)"

definition gen_columns_parse :: "string list \<Rightarrow> bool" where
  "gen_columns_parse row = list_all (\<lambda>k. \<not> isl (float_at row k)) [2, 3, 4, 5, 6, 8, 14, 16, 17]"

definition gen_columns :: "string list \<Rightarrow> real list \<Rightarrow> bool" where
  "gen_columns row g =
     (length g = 21
      \<and> float_at row 2 = Inr (g ! 1) \<and> float_at row 3 = Inr (g ! 2)
      \<and> float_at row 4 = Inr (g ! 3) \<and> float_at row 5 = Inr (g ! 4)
      \<and> float_at row 6 = Inr (g ! 5) \<and> float_at row 8 = Inr (g ! 6)
      \<and> float_at row 14 = Inr (g ! 7)
      \<and> float_at row 16 = Inr (g ! 8) \<and> float_at row 17 = Inr (g ! 9)
      \<and> list_all (\<lambda>k. g ! k = 0) [10..<21])"

text \<open>A bus table and its index table, as the bus reader builds them from the
  two bus rows of the scenario; generator rows at bus 1 (in service), at bus 2
  (out of service) and at a bus that is not in the table.\<close>

definition two_buses :: table where
  "two_buses =
     [[1, 3, 0, 0, 0, 0, 1, 1, 0, 345, 1, 11 / 10, 9 / 10],
      [2, 1, 0, 0, 0, 0, 1, 1, 0, 345, 1, 11 / 10, 9 / 10]]"

definition two_busmap :: "string \<rightharpoonup> nat" where
  "two_busmap = [''1'' \<mapsto> 0, ''BUS1'' \<mapsto> 0, ''2'' \<mapsto> 1, ''BUS2'' \<mapsto> 1]"

definition gen_in_service :: "string list" where
  "gen_in_service =
     [''1'', ''1'', ''72.3'', ''27.0'', ''100'', ''-100'', ''1.04'', ''0'', ''100'',
      ''0'', ''1'', ''0'', ''0'', ''1'', ''1'', ''100'', ''250'', ''10'']"

definition gen_out_of_service :: "string list" where
  "gen_out_of_service =
     [''2'', ''1'', ''50'', ''10'', ''100'', ''-100'', ''1.02'', ''0'', ''100'',
      ''0'', ''1'', ''0'', ''0'', ''1'', ''0'', ''100'', ''80'', ''10'']"

definition gen_unknown_bus :: "string list" where
  "gen_unknown_bus =
     [''7'', ''1'', ''50'', ''10'', ''100'', ''-100'', ''1.02'', ''0'', ''100'',
      ''0'', ''1'', ''0'', ''0'', ''1'', ''1'', ''100'', ''80'', ''10'']"

subsection \<open>Bus rows\<close>

text \<open>The two keys the bus reader registers for a bus row: the id and the
  name without its quotes.  A bus row is well formed for a revision when it is
  a data row with both fields whose columns read as numbers.\<close>

definition bus_keys :: "string list \<Rightarrow> string list" where
  "bus_keys row = (case row of i # name # _ \<Rightarrow> [i, strip_quote name] | _ \<Rightarrow> [])"

definition bus_row_ok :: "int \<Rightarrow> string list \<Rightarrow> bool" where
  "bus_row_ok version row =
     (data_row row \<and> 2 \<le> length row \<and> \<not> isl (bus_record version row))"

text \<open>The bus index table after the loop of \<^verbatim>\<open>_parse_buses\<close> has gone through
  the rows, starting with the table \<open>m\<close> and the counter \<open>c\<close>: the two
  assignments \<^verbatim>\<open>busmap[i] = c\<close> and \<^verbatim>\<open>busmap[name] = c\<close> per row.\<close>

fun busmap_after :: "string list list \<Rightarrow> nat \<Rightarrow> (string \<rightharpoonup> nat) \<Rightarrow> (string \<rightharpoonup> nat)" where
  "busmap_after [] c m = m"
| "busmap_after (r # rs) c m =
     busmap_after rs (Suc c) (foldl (\<lambda>m k. m(k \<mapsto> c)) m (bus_keys r))"

text \<open>Two bus rows that carry the same name.\<close>

definition dup_name_rows :: "string list list" where
  "dup_name_rows =
     [[''1'', quoted ''GEN'', ''345'', ''3'', ''0'', ''0'', ''1'', ''1'', ''1.0'', ''0'', ''1''],
      [''2'', quoted ''GEN'', ''345'', ''2'', ''0'', ''0'', ''1'', ''1'', ''1.0'', ''0'', ''1'']]"

text \<open>The two bus rows of the scenario.\<close>

definition scenario_bus_rows :: "string list list" where
  "scenario_bus_rows = take 2 scenario_sections"

text \<open>Load rows at bus 2 with PL 10 and QL 5: one with the status field \<open>0\<close>,
  one in service with a given scale field (revision 32); a branch row from bus
  2 to bus 1.\<close>

definition load_status_zero :: "string list" where
  "load_status_zero =
     [''2'', ''1'', ''0'', ''1'', ''1'', ''10'', ''5'', ''0'', ''0'', ''0'', ''0'', ''1'']"

definition load_scale :: "string \<Rightarrow> string list" where
  "load_scale scale =
     [''2'', ''1'', ''1'', ''1'', ''1'', ''10'', ''5'', ''0'', ''0'', ''0'', ''0'', ''1'', scale]"

definition branch_2_to_1 :: "string list" where
  "branch_2_to_1 =
     [''2'', ''1'', ''1'', ''0.01'', ''0.1'', ''0.02'', ''250'', ''250'', ''250'',
      ''0'', ''0'', ''0'', ''0'', ''1'', ''1.0'']"

subsection \<open>Branch rows\<close>

text \<open>A branch data row has its two bus ids; it resolves when both do.  The
  branch records, in the words of the specification: the from-bus field is the
  id column of the resolved from-bus, the impedance, the three ratings and the
  status come from columns 3 to 8 and 13, tap ratio and phase shift are 0 and
  the angle limits are -360 and 360.\<close>

definition branch_row_ok :: "string list \<Rightarrow> bool" where
  "branch_row_ok row = (data_row row \<and> 2 \<le> length row)"

definition branch_resolves :: "(string \<rightharpoonup> nat) \<Rightarrow> string list \<Rightarrow> bool" where
  "branch_resolves busmap row = (resolves busmap (row ! 0) \<and> resolves busmap (row ! 1))"

definition branch_record_ok :: "table \<Rightarrow> (string \<rightharpoonup> nat) \<Rightarrow> string list \<Rightarrow> bool" where
  "branch_record_ok bus busmap row =
     (\<not> isl (branch_record row bus (the (busmap (strip_quote (row ! 0))))
                (the (busmap (strip_quote (row ! 1))))))"

definition branch_columns :: "table \<Rightarrow> (string \<rightharpoonup> nat) \<Rightarrow> string list \<Rightarrow> real list \<Rightarrow> bool" where
  "branch_columns bus busmap row b =
     (length b = 13
      \<and> fetch bus (the (busmap (strip_quote (row ! 0)))) 0 = Inr (b ! 0)
      \<and> float_at row 3 = Inr (b ! 2) \<and> float_at row 4 = Inr (b ! 3)
      \<and> float_at row 5 = Inr (b ! 4) \<and> float_at row 6 = Inr (b ! 5)
      \<and> float_at row 7 = Inr (b ! 6) \<and> float_at row 8 = Inr (b ! 7)
      \<and> b ! 8 = 0 \<and> b ! 9 = 0
      \<and> float_at row 13 = Inr (b ! 10)
      \<and> b ! 11 = - 360 \<and> b ! 12 = 360)"

definition branch_of :: "table \<Rightarrow> (string \<rightharpoonup> nat) \<Rightarrow> string list \<Rightarrow> real list" where
  "branch_of bus busmap row =
     projr (branch_record row bus (the (busmap (strip_quote (row ! 0))))
              (the (busmap (strip_quote (row ! 1)))))"

subsection \<open>Load rows\<close>

text \<open>A load data row has its id and status fields.  It applies when its
  status text is not empty and its bus id resolves; its effect on the bus
  table is then to overwrite the fields 2 and 3 (Pd, Qd) of the bus it names
  with its PL and QL (columns 5 and 6), and otherwise none.  \<open>widths\<close> are the
  lengths of the rows of the bus table.\<close>

definition load_row_ok :: "string list \<Rightarrow> bool" where
  "load_row_ok row = (data_row row \<and> 3 \<le> length row)"

definition load_applies :: "(string \<rightharpoonup> nat) \<Rightarrow> string list \<Rightarrow> bool" where
  "load_applies busmap row = (row ! 2 \<noteq> [] \<and> resolves busmap (row ! 0))"

definition load_columns_parse :: "int \<Rightarrow> string list \<Rightarrow> bool" where
  "load_columns_parse version row =
     list_all (\<lambda>k. \<not> isl (float_at row k))
       ([5, 6, 7, 8, 9, 10] @ (if version = 32 then [12] else []))"

definition load_index_ok :: "nat list \<Rightarrow> (string \<rightharpoonup> nat) \<Rightarrow> string list \<Rightarrow> bool" where
  "load_index_ok widths busmap row =
     (case busmap (strip_quote (row ! 0)) of
        None \<Rightarrow> False
      | Some idx \<Rightarrow> idx < length widths \<and> 4 \<le> widths ! idx)"

definition load_effect :: "(string \<rightharpoonup> nat) \<Rightarrow> table \<Rightarrow> string list \<Rightarrow> table" where
  "load_effect busmap bus row =
     (if load_applies busmap row
      then bus[the (busmap (strip_quote (row ! 0))) :=
                (bus ! the (busmap (strip_quote (row ! 0))))
                  [2 := projr (float_at row 5), 3 := projr (float_at row 6)]]
      else bus)"

text \<open>A branch row and two load rows for the examples: an unknown to-bus, an
  empty status field, an unknown bus.\<close>

definition branch_unknown_bus :: "string list" where
  "branch_unknown_bus =
     [''1'', ''9'', ''1'', ''0.01'', ''0.1'', ''0.02'', ''250'', ''250'', ''250'',
      ''0'', ''0'', ''0'', ''0'', ''1'', ''1.0'']"

definition load_empty_status :: "string list" where
  "load_empty_status =
     [''1'', ''1'', '''', ''1'', ''1'', ''90'', ''30'', ''0'', ''0'', ''0'', ''0'', ''1'']"

definition load_unknown_bus :: "string list" where
  "load_unknown_bus =
     [''9'', ''1'', ''1'', ''1'', ''1'', ''90'', ''30'', ''0'', ''0'', ''0'', ''0'', ''1'']"

section \<open>Properties\<close>

subsection \<open>The bounds of a double, for evaluation\<close>

lemma double_bounds:
  "(1000000::real) < 2 ^ 1024 - 2 ^ 970"
  "(1::real) / 2 ^ 1075 < 1 / 1000000"
  "(1000000::int) < 2 ^ 1024 - 2 ^ 970"
  by simp_all

lemma to_double_code [code]:
  "to_double x =
     (if x = 0 then Inr x
      else if 1 \<le> \<bar>x\<bar> \<and> \<bar>x\<bar> \<le> 1000000 then Inr x
      else if \<bar>x\<bar> \<le> 1 \<and> 1 \<le> \<bar>x\<bar> * 1000000 then Inr x
      else if 2 ^ 1024 - 2 ^ 970 \<le> \<bar>x\<bar> then Inl NotFinite
      else if \<bar>x\<bar> \<le> 1 / 2 ^ 1075 then Inr 0
      else Inr x)"
proof -
  have "\<not> 2 ^ 1024 - 2 ^ 970 \<le> \<bar>x\<bar>" if "\<bar>x\<bar> \<le> 1000000"
    using that double_bounds(1) by linarith
  moreover have "\<not> \<bar>x\<bar> \<le> 1 / 2 ^ 1075" if "1 \<le> \<bar>x\<bar> * 1000000"
    using that double_bounds(2) by linarith
  moreover have "\<not> 2 ^ 1024 - 2 ^ 970 \<le> \<bar>0::real\<bar>"
    using double_bounds(1) by linarith
  ultimately show ?thesis
    unfolding to_double_def by (simp only: if_splits) (simp del: power_numeral)
qed

lemma int_at_code [code]:
  "int_at row k =
     bindE (bindE (item row k) py_int) (\<lambda>n.
       if \<bar>n\<bar> \<le> 1000000 then Inr (real_of_int n)
       else if 2 ^ 1024 - 2 ^ 970 \<le> \<bar>n\<bar> then Inl OverflowError
       else Inr (real_of_int n))"
proof -
  have "(if 2 ^ 1024 - 2 ^ 970 \<le> \<bar>n\<bar> then Inl OverflowError else Inr (real_of_int n)) =
      (if \<bar>n\<bar> \<le> 1000000 then Inr (real_of_int n)
       else if 2 ^ 1024 - 2 ^ 970 \<le> \<bar>n\<bar> then Inl OverflowError
       else Inr (real_of_int n))" for n :: int
  proof (cases "\<bar>n\<bar> \<le> 1000000")
    case True
    then have "\<not> 2 ^ 1024 - 2 ^ 970 \<le> \<bar>n\<bar>"
      using double_bounds(3) by linarith
    with True show ?thesis by (simp only: if_True if_False)
  next
    case False
    then show ?thesis by (simp only: if_False)
  qed
  then show ?thesis by (simp only: int_at_def)
qed

subsection \<open>Laws of the computations\<close>

lemma after_simps:
  "after l (l', r) = (l @ l', r)"
  "after [] m = m"
  "after l (ret x) = (l, Inr x)"
  "after l (raise e) = (l, Inl e)"
  "after l (after l' m) = after (l @ l') m"
  by (simp_all add: after_def ret_def raise_def)

lemma bindIO_simps:
  "bindIO (ret x) f = f x"
  "bindIO (raise e) f = raise e"
  "bindIO (l, Inl e) f = (l, Inl e)"
  "bindIO (l, Inr x) f = after l (f x)"
  "bindIO (lift (Inr x)) f = f x"
  "bindIO (lift (Inl e)) f = raise e"
  "bindIO (logger lv m) g = after [(lv, m)] (g ())"
  "bindIO (after l k) f = after l (bindIO k f)"
  by (simp_all add: bindIO_def ret_def raise_def lift_def logger_def after_def
      split: prod.splits sum.splits)

lemma bindIO_assoc: "bindIO (bindIO m f) g = bindIO m (\<lambda>x. bindIO (f x) g)"
  by (auto simp: bindIO_def split: prod.splits sum.splits)

lemma bindIO_raise_const:
  "bindIO m (\<lambda>x. raise e) = (fst m, case snd m of Inl e' \<Rightarrow> Inl e' | Inr _ \<Rightarrow> Inl e)"
  by (auto simp: bindIO_def raise_def split: prod.splits sum.splits)

lemma bindIO_cong: "(\<And>x. f x = g x) \<Longrightarrow> bindIO m f = bindIO m g"
  by (auto simp: bindIO_def split: prod.splits sum.splits)

subsection \<open>The call of the generator reader\<close>

lemma generators_call_fails:
  "bindIO (call_parse_generators [Reader reader]) k = raise TypeError"
  by (simp add: bindIO_simps)

lemma parse_file_before_generators:
  "parse_file fd version delimiter =
     bindIO (before_generators fd version delimiter) (\<lambda>_. raise TypeError)"
  unfolding parse_file_def before_generators_def
  apply (simp add: bindIO_assoc generators_call_fails split_def del: set_simps)
  apply (intro bindIO_cong)
  apply (simp add: bindIO_simps bindIO_raise_const)
  done

lemma parse_file_no_case: "snd (parse_file fd version delimiter) \<noteq> Inr c"
  by (simp add: parse_file_before_generators bindIO_raise_const split: sum.splits)

lemma parse_file_NoneObj: "parse_file NoneObj version delimiter = raise AttributeError"
  by (cases version; cases delimiter)
    (simp_all add: parse_file_before_generators before_generators_def sniff_delimiter_def
      sniff_version_def seek_def bindIO_simps)

lemma bindIO_value: "snd (bindIO m f) = Inr r \<Longrightarrow> \<exists>c. snd m = Inr c"
  by (cases m; cases "snd m") (auto simp: bindIO_def)

lemma psse2case_no_case:
  "casefile = CasePath path \<or> casefile = CaseOther fd \<Longrightarrow>
   snd (psse2case fs casefile version delimiter) \<noteq> Inr r"
  by (auto simp: psse2case_def bindIO_simps after_def parse_file_NoneObj raise_def
      parse_file_no_case split: option.splits dest!: bindIO_value)

lemma scenario_file3_before_generators:
  "before_generators (File scenario_file3) None None =
     ([(INFO, CommaDelimited), (INFO, VersionFound 30), (INFO, BusesFound 2),
       (INFO, LoadsFound 1)], Inr ())"
  by code_simp

text \<open>
  C10.  Whatever the stream, the revision and the delimiter, \<^verbatim>\<open>_parse_file\<close>
  calls \<^verbatim>\<open>_parse_generators\<close> with the reader alone, which is an arity error
  (\<open>TypeError\<close>) against \<^verbatim>\<open>def _parse_generators(reader, busmap)\<close>, and its call
  of \<^verbatim>\<open>_parse_shunt\<close> for revisions 29 and 30 passes two arguments to a
  function of one.  So the file parser is the sections before the generators
  followed by \<open>TypeError\<close>: it ends with the error of an earlier section or with
  \<open>TypeError\<close>, and neither it nor the entry point on a path or a stream ever
  returns a case.
\<close>

theorem parse_file_arity_error:
  "parse_file fd version delimiter =
     bindIO (before_generators fd version delimiter) (\<lambda>_. raise TypeError)
   \<and> call_parse_generators [Reader reader] = raise TypeError
   \<and> call_parse_shunt [Reader reader, BusData busdata] = raise TypeError
   \<and> snd (parse_file fd version delimiter) \<noteq> Inr c
   \<and> snd (psse2case fs (CasePath path) version delimiter) \<noteq> Inr r
   \<and> snd (psse2case fs (CaseOther fd) version delimiter) \<noteq> Inr r"
  using parse_file_before_generators [of fd version delimiter]
    parse_file_no_case [of fd version delimiter c]
    psse2case_no_case [of "CasePath path" path fd fs version delimiter r]
    psse2case_no_case [of "CaseOther fd" path fd fs version delimiter r]
  by simp

theorem parse_file_arity_error_witness:
  "parse_file (File scenario_file3) None None =
     ([(INFO, CommaDelimited), (INFO, VersionFound 30), (INFO, BusesFound 2),
       (INFO, LoadsFound 1)], Inl TypeError)"
  using parse_file_arity_error [of "File scenario_file3" None None]
    scenario_file3_before_generators
  by (simp add: bindIO_simps after_simps)

text \<open>
  C9.  For a path that cannot be opened, \<^verbatim>\<open>psse2case\<close> logs the error and
  then, in its \<^verbatim>\<open>finally\<close> clause, calls \<^verbatim>\<open>_parse_file\<close> on \<^verbatim>\<open>fd = None\<close>: the
  \<open>AttributeError\<close> of \<^verbatim>\<open>None.seek\<close> leaves the function instead of the value
  \<^verbatim>\<open>None\<close>, whatever the revision and the delimiter.
\<close>

theorem psse2case_unopenable_raises:
  "psse2case (fs(path := None)) (CasePath path) version delimiter =
     ([(INFO, Loading (basename path)), (ERROR, ErrorOpening (basename path))],
      Inl AttributeError)"
  by (simp add: psse2case_def parse_file_NoneObj bindIO_simps after_simps)

text \<open>
  C1.  On the minimal file of the round-trip scenario the entry point returns
  no case: with the header row alone before the bus rows, and also with the
  two title rows that the header reader consumes, the parse reaches the call
  \<^verbatim>\<open>_parse_generators(reader)\<close> and ends there with \<open>TypeError\<close>.
\<close>

theorem scenario_raises_TypeError:
  "psse2case Map.empty (CaseOther (File scenario_file)) None None =
     ([(INFO, CommaDelimited), (INFO, VersionFound 30), (INFO, BusesFound 0),
       (ERROR, BusNotFound ''2''), (INFO, LoadsFound 1)], Inl TypeError)
   \<and> psse2case Map.empty (CaseOther (File scenario_file3)) None None =
     ([(INFO, CommaDelimited), (INFO, VersionFound 30), (INFO, BusesFound 2),
       (INFO, LoadsFound 1)], Inl TypeError)"
  by code_simp

subsection \<open>Evaluation\<close>

lemmas number_defs = py_int_def py_float_def mantissa_def signed_digits_def strip_def
  strip_chars_def whitespace_def is_digit_def is_exp_def digits_val_def digit_val_def
  before_slash_def float_at_def int_at_def item_def bindE_def to_double_def to_lower_def

subsection \<open>The header\<close>

lemma parse_header_three:
  "parse_header ((ic # others) # ta # tb # rest) =
     (if ic = ''0'' \<or> ic = ''1''
      then bindIO (lift (float_at (ic # others) 1)) (\<lambda>baseMVA. ret (baseMVA, rest))
      else raise AssertionError)"
  by (simp add: parse_header_def next_row_def bindIO_simps item_def)

lemma sniffed_parse_file:
  assumes "(case delimiter of None \<Rightarrow> sniff_delimiter (File s) | Some d \<Rightarrow> ret d) = (la, Inr sep)"
      and "(case version of None \<Rightarrow> sniff_version (File s) sep | Some v \<Rightarrow> ret v) = (lb, Inr revision)"
      and "parse_header (rows s sep) = raise e"
  shows "parse_file (File s) version delimiter = (la @ lb, Inl e)"
  using assms
  by (simp add: parse_file_def bindIO_simps after_simps seek_def)

text \<open>
  C4, as amended.  On a stream of at least three rows, the first with a first
  field \<open>ic\<close>: if \<open>ic\<close> is neither \<open>0\<close> nor \<open>1\<close> the header reader fails
  with the assertion error (the specification's \<open>FormatError\<close>), and so do the
  file parser and the entry point, on the stream or on a path that opens to
  it, whenever the delimiter and the revision are given or their sniffing has
  returned, so no case is produced; if \<open>ic\<close> is \<open>0\<close> or \<open>1\<close> and the second
  field of row 1 reads as a number, the header reader returns that number as
  \<open>baseMVA\<close> and leaves the reader after the third row.
\<close>

theorem header_check:
  assumes "reader = (ic # others) # ta # tb # rest"
  shows "(ic \<noteq> ''0'' \<and> ic \<noteq> ''1'' \<longrightarrow> parse_header reader = raise AssertionError)
    \<and> (ic \<noteq> ''0'' \<and> ic \<noteq> ''1''
         \<and> (case delimiter of None \<Rightarrow> sniff_delimiter (File s) | Some d \<Rightarrow> ret d) = (la, Inr sep)
         \<and> (case version of None \<Rightarrow> sniff_version (File s) sep | Some v \<Rightarrow> ret v) = (lb, Inr revision)
         \<and> rows s sep = reader
         \<longrightarrow> parse_file (File s) version delimiter = (la @ lb, Inl AssertionError)
           \<and> psse2case fs (CaseOther (File s)) version delimiter = (la @ lb, Inl AssertionError)
           \<and> psse2case (fs(path \<mapsto> s)) (CasePath path) version delimiter =
               ((INFO, Loading (basename path)) # la @ lb, Inl AssertionError))
    \<and> ((ic = ''0'' \<or> ic = ''1'') \<and> float_at (ic # others) 1 = Inr baseMVA
         \<longrightarrow> parse_header reader = ret (baseMVA, rest))"
proof -
  have h: "parse_header reader =
     (if ic = ''0'' \<or> ic = ''1''
      then bindIO (lift (float_at (ic # others) 1)) (\<lambda>baseMVA. ret (baseMVA, rest))
      else raise AssertionError)"
    using assms by (simp only: parse_header_three)
  have a: "ic \<noteq> ''0'' \<and> ic \<noteq> ''1'' \<longrightarrow> parse_header reader = raise AssertionError"
    using h by simp
  moreover have "parse_file (File s) version delimiter = (la @ lb, Inl AssertionError)
           \<and> psse2case fs (CaseOther (File s)) version delimiter = (la @ lb, Inl AssertionError)
           \<and> psse2case (fs(path \<mapsto> s)) (CasePath path) version delimiter =
               ((INFO, Loading (basename path)) # la @ lb, Inl AssertionError)"
    if "ic \<noteq> ''0'' \<and> ic \<noteq> ''1''"
      "(case delimiter of None \<Rightarrow> sniff_delimiter (File s) | Some d \<Rightarrow> ret d) = (la, Inr sep)"
      "(case version of None \<Rightarrow> sniff_version (File s) sep | Some v \<Rightarrow> ret v) = (lb, Inr revision)"
      "rows s sep = reader"
  proof -
    have "parse_header (rows s sep) = raise AssertionError"
      using that a by simp
    from sniffed_parse_file [OF that(2) that(3) this]
    show ?thesis by (simp add: psse2case_def bindIO_simps after_simps)
  qed
  moreover have "(ic = ''0'' \<or> ic = ''1'') \<and> float_at (ic # others) 1 = Inr baseMVA
         \<longrightarrow> parse_header reader = ret (baseMVA, rest)"
    using h by (auto simp: bindIO_simps)
  ultimately show ?thesis by blast
qed

theorem header_check_witness:
  "parse_header ([''2'', ''100'', ''30''] # [''title 1''] # [''title 2''] # scenario_sections)
     = raise AssertionError
   \<and> parse_file (File bad_header_file) None None
     = ([(INFO, CommaDelimited), (INFO, VersionFound 30)], Inl AssertionError)
   \<and> parse_header (scenario_header # [''title 1''] # [''title 2''] # scenario_sections)
     = ret (100, scenario_sections)"
proof -
  have d: "sniff_delimiter (File bad_header_file) = ([(INFO, CommaDelimited)], Inr (CHR '',''))"
    by code_simp
  have v: "sniff_version (File bad_header_file) (CHR '','') = ([(INFO, VersionFound 30)], Inr 30)"
    by code_simp
  have r: "rows bad_header_file (CHR '','')
     = [''2'', ''100'', ''30''] # [''title 1''] # [''title 2''] # scenario_sections"
    by (simp add: bad_header_file_def comma_stream_def)
  have f: "float_at [''1'', ''100'', ''30''] 1 = Inr 100"
    by code_simp
  show ?thesis
    using header_check [where ic = "''2''" and others = "[''100'', ''30'']"
        and ta = "[''title 1'']" and tb = "[''title 2'']" and rest = scenario_sections
        and delimiter = None and version = None and s = bad_header_file
        and la = "[(INFO, CommaDelimited)]" and sep = "CHR '',''"
        and lb = "[(INFO, VersionFound 30)]" and revision = "30", OF refl]
      header_check [where ic = "''1''" and others = "[''100'', ''30'']"
        and ta = "[''title 1'']" and tb = "[''title 2'']" and rest = scenario_sections
        and baseMVA = "100", OF refl]
      d v r f
    by (simp add: scenario_header_def)
qed

text \<open>
  The claim C4 as stated fails on inputs whose first field is \<open>2\<close>: with two
  rows only, the header reader and the entry point end with \<open>StopIteration\<close>,
  raised by the third \<^verbatim>\<open>reader.next()\<close> before the assertion is reached; with a
  third field \<open>30.0\<close> and the revision to be sniffed, the entry point ends with
  the \<open>ValueError\<close> of \<^verbatim>\<open>int('30.0')\<close> in \<^verbatim>\<open>_version\<close>, before the header is
  read.  It also fails on headers whose first field is \<open>1\<close> and whose second
  field is missing or no number: \<open>IndexError\<close>, \<open>ValueError\<close>.
\<close>

theorem header_check_counterexample:
  "parse_header (rows short_header_file (CHR '','')) = raise StopIteration
   \<and> psse2case Map.empty (CaseOther (File short_header_file)) None None =
       ([(INFO, CommaDelimited), (INFO, VersionFound 30)], Inl StopIteration)
   \<and> psse2case Map.empty (CaseOther (File float_revision_file)) None None =
       ([(INFO, CommaDelimited)], Inl ValueError)
   \<and> parse_header ([''1''] # [''title 1''] # [''title 2''] # scenario_sections) =
       raise IndexError
   \<and> parse_header ([''1'', ''abc''] # [''title 1''] # [''title 2''] # scenario_sections) =
       raise ValueError"
  by code_simp

subsection \<open>The version sniffer\<close>

lemma strip_padded:
  assumes "list_all whitespace pad" "t \<noteq> []" "\<not> whitespace (hd t)" "\<not> whitespace (last t)"
  shows "strip (t @ pad) = t"
proof -
  obtain a t' where t: "t = a # t'" using assms(2) by (cases t) auto
  have 1: "dropWhile whitespace (t @ pad) = t @ pad"
    using assms(3) t by simp
  have 2: "dropWhile whitespace (rev pad @ rev t) = dropWhile whitespace (rev t)"
    using assms(1) by (intro dropWhile_append2) (simp add: list_all_iff)
  have 3: "dropWhile whitespace (rev t) = rev t"
    using assms(2,4) by (cases t rule: rev_cases) auto
  show ?thesis by (simp add: strip_def strip_chars_def 1 2 3)
qed

lemma before_slash_padded:
  assumes "list_all whitespace pad" "CHR ''/'' \<notin> set t"
  shows "before_slash (t @ pad @ CHR ''/'' # comment) = t @ pad"
proof -
  have "\<forall>c\<in>set (t @ pad). c \<noteq> CHR ''/''"
    using assms by (auto simp: list_all_iff whitespace_def)
  then have "takeWhile (\<lambda>c. c \<noteq> CHR ''/'') ((t @ pad) @ CHR ''/'' # comment) = t @ pad"
    by (subst takeWhile_append2) auto
  then show ?thesis by (simp add: before_slash_def)
qed

lemma py_int_supported_text: "(r, lit) \<in> set supported_text \<Longrightarrow> py_int lit = Inr r"
  by (auto simp: supported_text_def py_int_def signed_digits_def strip_def strip_chars_def
      whitespace_def is_digit_def digits_val_def digit_val_def)

lemma supported_text_shape:
  "(r, lit) \<in> set supported_text \<Longrightarrow>
   lit \<noteq> [] \<and> \<not> whitespace (hd lit) \<and> \<not> whitespace (last lit) \<and> CHR ''/'' \<notin> set lit
   \<and> r \<in> set SUPPORTED_VERSIONS"
  by (auto simp: supported_text_def whitespace_def SUPPORTED_VERSIONS_def)

lemma sniff_version_row:
  "rows s delimiter = hdr # rest \<Longrightarrow>
   sniff_version (File s) delimiter =
     (if length hdr < 3
       then bindIO (logger INFO (NoVersionInfo DEFAULT_VERSION)) (\<lambda>_. ret DEFAULT_VERSION)
       else
         bindIO (lift (if CHR ''/'' \<in> set (hdr ! 2)
                       then py_int (strip (before_slash (hdr ! 2)))
                       else py_int (hdr ! 2))) (\<lambda>version.
         bindIO (logger INFO (VersionFound version)) (\<lambda>_.
           if version \<in> set SUPPORTED_VERSIONS then ret version
           else bindIO (logger WARNING (VersionUnsupported version))
                  (\<lambda>_. ret DEFAULT_VERSION))))"
  by (simp add: sniff_version_def seek_def bindIO_simps next_row_def)

lemma sniff_version_field:
  assumes "rows s delimiter = hdr # rest" "3 \<le> length hdr"
    "(if CHR ''/'' \<in> set (hdr ! 2) then py_int (strip (before_slash (hdr ! 2))) else py_int (hdr ! 2)) = Inr v"
  shows "sniff_version (File s) delimiter =
     (if v \<in> set SUPPORTED_VERSIONS then ([(INFO, VersionFound v)], Inr v)
      else ([(INFO, VersionFound v), (WARNING, VersionUnsupported v)], Inr 30))"
  using assms(2,3)
  by (simp add: sniff_version_row [OF assms(1)] bindIO_simps after_simps DEFAULT_VERSION_def
      del: set_simps)

text \<open>
  C5.  The version sniffer reads the first row \<open>hdr\<close> of the stream.  When its
  third field is the decimal text of a supported revision \<open>r\<close>, alone or
  followed by blanks, a slash and a comment, the sniffer returns \<open>r\<close>.  When
  the row has fewer than three fields it returns the default 30; when the
  third field reads as an integer outside 29..32 it logs a warning and returns
  30.  It fails in neither case.
\<close>

theorem sniff_version_revision:
  assumes "rows s delimiter = hdr # rest"
  shows "((r, lit) \<in> set supported_text \<and> 3 \<le> length hdr
          \<and> (hdr ! 2 = lit \<or> (hdr ! 2 = lit @ pad @ CHR ''/'' # comment \<and> list_all whitespace pad))
          \<longrightarrow> sniff_version (File s) delimiter = ([(INFO, VersionFound r)], Inr r))
    \<and> (length hdr < 3
          \<longrightarrow> sniff_version (File s) delimiter = ([(INFO, NoVersionInfo 30)], Inr 30))
    \<and> (3 \<le> length hdr
          \<and> (if CHR ''/'' \<in> set (hdr ! 2) then py_int (strip (before_slash (hdr ! 2)))
              else py_int (hdr ! 2)) = Inr v
          \<and> v \<notin> set SUPPORTED_VERSIONS
          \<longrightarrow> sniff_version (File s) delimiter =
                ([(INFO, VersionFound v), (WARNING, VersionUnsupported v)], Inr 30))"
proof (intro conjI impI)
  assume a: "(r, lit) \<in> set supported_text \<and> 3 \<le> length hdr
          \<and> (hdr ! 2 = lit \<or> (hdr ! 2 = lit @ pad @ CHR ''/'' # comment \<and> list_all whitespace pad))"
  then have rt: "(r, lit) \<in> set supported_text" and len: "3 \<le> length hdr" by simp_all
  note sh = supported_text_shape [OF rt]
  have "(if CHR ''/'' \<in> set (hdr ! 2) then py_int (strip (before_slash (hdr ! 2)))
         else py_int (hdr ! 2)) = Inr r"
  proof (cases "hdr ! 2 = lit")
    case True
    then show ?thesis using sh py_int_supported_text [OF rt] by simp
  next
    case False
    then have f: "hdr ! 2 = lit @ pad @ CHR ''/'' # comment" and p: "list_all whitespace pad"
      using a by auto
    have "strip (before_slash (hdr ! 2)) = lit"
      using sh p by (simp add: f before_slash_padded strip_padded)
    then show ?thesis using f py_int_supported_text [OF rt] by simp
  qed
  from sniff_version_field [OF assms len this] sh
  show "sniff_version (File s) delimiter = ([(INFO, VersionFound r)], Inr r)" by simp
next
  assume "length hdr < 3"
  then show "sniff_version (File s) delimiter = ([(INFO, NoVersionInfo 30)], Inr 30)"
    by (simp add: sniff_version_row [OF assms] bindIO_simps after_simps DEFAULT_VERSION_def)
next
  assume a: "3 \<le> length hdr
          \<and> (if CHR ''/'' \<in> set (hdr ! 2) then py_int (strip (before_slash (hdr ! 2)))
              else py_int (hdr ! 2)) = Inr v
          \<and> v \<notin> set SUPPORTED_VERSIONS"
  then have "3 \<le> length hdr" and
    "(if CHR ''/'' \<in> set (hdr ! 2) then py_int (strip (before_slash (hdr ! 2)))
              else py_int (hdr ! 2)) = Inr v" and n: "v \<notin> set SUPPORTED_VERSIONS" by blast+
  from sniff_version_field [OF assms this(1,2)] n
  show "sniff_version (File s) delimiter =
                ([(INFO, VersionFound v), (WARNING, VersionUnsupported v)], Inr 30)"
    by simp
qed

theorem sniff_version_revision_witness:
  "sniff_version (File (comma_stream [[''0'', ''100.0'', ''31 / raw data'']])) (CHR '','')
     = ([(INFO, VersionFound 31)], Inr 31)
   \<and> sniff_version (File (comma_stream [[''0'', ''100.0'', ''29'']])) (CHR '','')
     = ([(INFO, VersionFound 29)], Inr 29)
   \<and> sniff_version (File (comma_stream [[''0'', ''100.0'']])) (CHR '','')
     = ([(INFO, NoVersionInfo 30)], Inr 30)
   \<and> sniff_version (File (comma_stream [[''0'', ''100.0'', ''33'']])) (CHR '','')
     = ([(INFO, VersionFound 33), (WARNING, VersionUnsupported 33)], Inr 30)"
proof -
  have p: "py_int ''33'' = Inr 33"
    by (simp add: number_defs)
  show ?thesis
    using sniff_version_revision [where s = "comma_stream [[''0'', ''100.0'', ''31 / raw data'']]"
        and delimiter = "CHR '',''" and hdr = "[''0'', ''100.0'', ''31 / raw data'']"
        and rest = "[]" and r = "31" and lit = "''31''" and pad = "'' ''"
        and comment = "'' raw data''"]
      sniff_version_revision [where s = "comma_stream [[''0'', ''100.0'', ''29'']]"
        and delimiter = "CHR '',''" and hdr = "[''0'', ''100.0'', ''29'']"
        and rest = "[]" and r = "29" and lit = "''29''"]
      sniff_version_revision [where s = "comma_stream [[''0'', ''100.0'']]"
        and delimiter = "CHR '',''" and hdr = "[''0'', ''100.0'']" and rest = "[]"]
      sniff_version_revision [where s = "comma_stream [[''0'', ''100.0'', ''33'']]"
        and delimiter = "CHR '',''" and hdr = "[''0'', ''100.0'', ''33'']"
        and rest = "[]" and v = "33"]
      p
    by (simp add: comma_stream_def supported_text_def whitespace_def SUPPORTED_VERSIONS_def)
qed

subsection \<open>The generator reader\<close>

declare parse_generators_loop.simps [simp del]

lemma list_case_nonempty:
  "xs \<noteq> [] \<Longrightarrow> (case xs of [] \<Rightarrow> a | x # y \<Rightarrow> f x y) = f (hd xs) (tl xs)"
  by (cases xs) auto

lemma busidx_log:
  "busidx i busmap = (not_found_log busmap i, Inr (busmap (strip_quote i)))"
  by (auto simp: busidx_def not_found_log_def resolves_def ret_def bindIO_simps after_simps)

lemma gen_record_columns:
  assumes "gen_columns_parse row"
  shows "\<exists>g. gen_record row = Inr g \<and> gen_columns row g"
proof -
  from assms obtain a b c d e f g h i where
    "float_at row 2 = Inr a" "float_at row 3 = Inr b" "float_at row 4 = Inr c"
    "float_at row 5 = Inr d" "float_at row 6 = Inr e" "float_at row 8 = Inr f"
    "float_at row 14 = Inr g" "float_at row 16 = Inr h" "float_at row 17 = Inr i"
    unfolding gen_columns_parse_def
    by (auto simp: isl_def) (metis sum.exhaust)
  then show ?thesis
    by (simp add: gen_record_def set_float_def bindE_def zeros_def gen_columns_def
        list_all_iff nth_list_update)
qed

lemma gen_row_result:
  "gen_row (f # fs) busmap gens =
     (if gen_resolves busmap (f # fs)
      then (case gen_record (f # fs) of
              Inl e \<Rightarrow> ([], Inl e)
            | Inr g \<Rightarrow> ([], Inr (gens @ [g])))
      else ([(ERROR, BusNotFound (strip_quote f))], Inr gens))"
  by (auto simp: gen_row_def item_def bindIO_simps busidx_log not_found_log_def
      gen_resolves_def resolves_def after_simps lift_def ret_def raise_def
      split: option.splits sum.splits)

lemma parse_generators_loop_step:
  "parse_generators_loop busmap (f # fs) reader gens c =
     (if terminator f then ret (gens, c, reader)
      else (case gen_row (f # fs) busmap gens of
              (l, Inl e) \<Rightarrow> (l, Inl e)
            | (l, Inr gens') \<Rightarrow>
                (case reader of
                   [] \<Rightarrow> (l, Inl StopIteration)
                 | a # b \<Rightarrow> after l (parse_generators_loop busmap a b gens' (Suc c)))))"
  by (subst parse_generators_loop.simps) (simp add: item_def)

lemma parse_generators_loop_rows:
  assumes "list_all data_row rws" "terminator_row t"
    and "list_all gen_columns_parse (filter (gen_resolves busmap) rws)"
  shows "parse_generators_loop busmap (hd (rws @ t # rest)) (tl (rws @ t # rest)) gens c =
     (concat (map (\<lambda>r. not_found_log busmap (hd r)) rws),
      Inr (gens @ map (\<lambda>r. projr (gen_record r)) (filter (gen_resolves busmap) rws),
           c + length rws, rest))"
  using assms
proof (induction rws arbitrary: gens c)
  case Nil
  then obtain f fs where "t = f # fs" "terminator f"
    by (auto simp: terminator_row_def split: list.splits)
  then show ?case
    by (simp add: parse_generators_loop_step ret_def)
next
  case (Cons r rs)
  then obtain f fs where r: "r = f # fs" and nt: "\<not> terminator f"
    by (auto simp: data_row_def split: list.splits)
  have ne: "rs @ t # rest \<noteq> []" by simp
  show ?case
  proof (cases "gen_resolves busmap r")
    case True
    with Cons.prems obtain g where g: "gen_record r = Inr g"
      using gen_record_columns [of r] by auto
    have row: "gen_row r busmap gens = ([], Inr (gens @ [g]))"
      using True g by (simp add: r gen_row_result)
    have ih: "parse_generators_loop busmap (hd (rs @ t # rest)) (tl (rs @ t # rest))
        (gens @ [g]) (Suc c) =
      (concat (map (\<lambda>r. not_found_log busmap (hd r)) rs),
       Inr ((gens @ [g]) @ map (\<lambda>r. projr (gen_record r)) (filter (gen_resolves busmap) rs),
           Suc c + length rs, rest))"
      using Cons.prems True by (intro Cons.IH) simp_all
    have nf: "not_found_log busmap (hd r) = []"
      using True by (simp add: not_found_log_def gen_resolves_def)
    show ?thesis
    proof -
      have "parse_generators_loop busmap r (rs @ t # rest) gens c =
          after [] (parse_generators_loop busmap (hd (rs @ t # rest)) (tl (rs @ t # rest))
            (gens @ [g]) (Suc c))"
        using nt row by (simp add: r parse_generators_loop_step list_case_nonempty [OF ne])
      then show ?thesis
        using nf True g by (simp add: ih after_simps)
    qed
  next
    case False
    have row: "gen_row r busmap gens = ([(ERROR, BusNotFound (strip_quote f))], Inr gens)"
      using False by (simp add: r gen_row_result)
    have ih: "parse_generators_loop busmap (hd (rs @ t # rest)) (tl (rs @ t # rest))
        gens (Suc c) =
      (concat (map (\<lambda>r. not_found_log busmap (hd r)) rs),
       Inr (gens @ map (\<lambda>r. projr (gen_record r)) (filter (gen_resolves busmap) rs),
           Suc c + length rs, rest))"
      using Cons.prems False by (intro Cons.IH) simp_all
    have nf: "not_found_log busmap (hd r) = [(ERROR, BusNotFound (strip_quote f))]"
      using False by (simp add: not_found_log_def gen_resolves_def r)
    show ?thesis
    proof -
      have "parse_generators_loop busmap r (rs @ t # rest) gens c =
          after [(ERROR, BusNotFound (strip_quote f))]
            (parse_generators_loop busmap (hd (rs @ t # rest)) (tl (rs @ t # rest))
              gens (Suc c))"
        using nt row by (simp add: r parse_generators_loop_step list_case_nonempty [OF ne])
      then show ?thesis
        using nf False by (simp add: ih after_simps)
    qed
  qed
qed

text \<open>
  C7, as amended.  For generator rows followed by a terminator row, where the
  rows whose bus id resolves have numbers in the columns read: the generator
  reader returns exactly one record per row whose bus id resolves, in row
  order and whatever the row's status, each with the row's Pg, Qg, Qmax, Qmin,
  Vg, MBASE, STAT, PT and PB (columns 2, 3, 4, 5, 6, 8, 14, 16, 17) in its
  fields 1 to 9 and zero in its fields 10 to 20; it logs an error for each row
  whose bus id does not resolve and the number of rows read, and leaves the
  reader after the terminator.  Nothing is said of the bus field of a record.
\<close>

theorem parse_generators_records:
  assumes "list_all data_row rws" and "terminator_row t"
    and "list_all gen_columns_parse (filter (gen_resolves busmap) rws)"
  shows "\<exists>gens. parse_generators (rws @ t # rest) busmap =
            (concat (map (\<lambda>r. not_found_log busmap (hd r)) rws)
               @ [(INFO, GeneratorsFound (length rws))], Inr (gens, rest))
          \<and> list_all2 gen_columns (filter (gen_resolves busmap) rws) gens"
proof -
  let ?gens = "map (\<lambda>r. projr (gen_record r)) (filter (gen_resolves busmap) rws)"
  have ne: "rws @ t # rest \<noteq> []" by simp
  have "parse_generators (rws @ t # rest) busmap =
      (concat (map (\<lambda>r. not_found_log busmap (hd r)) rws)
         @ [(INFO, GeneratorsFound (length rws))], Inr (?gens, rest))"
    using parse_generators_loop_rows [OF assms, of rest "[]" 0]
    by (simp add: parse_generators_def next_row_def list_case_nonempty [OF ne]
        bindIO_simps after_simps ret_def)
  moreover have "list_all2 gen_columns (filter (gen_resolves busmap) rws) ?gens"
  proof -
    have "\<forall>r\<in>set (filter (gen_resolves busmap) rws). gen_columns r (projr (gen_record r))"
    proof
      fix r assume "r \<in> set (filter (gen_resolves busmap) rws)"
      with assms(3) have "gen_columns_parse r" by (simp add: list_all_iff)
      from gen_record_columns [OF this] show "gen_columns r (projr (gen_record r))" by auto
    qed
    then show ?thesis
      by (simp add: list_all2_map2 list_all2_same)
  qed
  ultimately show ?thesis by blast
qed

theorem parse_generators_records_witness:
  "\<exists>gens. parse_generators
            ([gen_in_service, gen_unknown_bus, gen_out_of_service] @ [''0''] # []) two_busmap =
            ([(ERROR, BusNotFound ''7''), (INFO, GeneratorsFound 3)], Inr (gens, []))
          \<and> list_all2 gen_columns [gen_in_service, gen_out_of_service] gens"
proof -
  have 1: "list_all data_row [gen_in_service, gen_unknown_bus, gen_out_of_service]"
    by code_simp
  have 2: "terminator_row [''0'']"
    by code_simp
  have 3: "filter (gen_resolves two_busmap) [gen_in_service, gen_unknown_bus, gen_out_of_service]
      = [gen_in_service, gen_out_of_service]"
    by code_simp
  have 4: "list_all gen_columns_parse [gen_in_service, gen_out_of_service]"
    by code_simp
  have 5: "concat (map (\<lambda>r. not_found_log two_busmap (hd r))
       [gen_in_service, gen_unknown_bus, gen_out_of_service]) = [(ERROR, BusNotFound ''7'')]"
    by code_simp
  show ?thesis
    using parse_generators_records [of "[gen_in_service, gen_unknown_bus, gen_out_of_service]"
        "[''0'']" two_busmap "[]"] 1 2 4
    unfolding 3 5 by (simp add: numeral_3_eq_3)
qed

text \<open>
  The claim C7 as stated fails on a row that is out of service (STAT 0) at bus
  2, which is row 1 of the bus table: the reader produces a record for it, and
  the bus field of the record is 0.
\<close>

theorem generators_counterexample:
  "parse_generators [gen_out_of_service, [''0'']] two_busmap =
     ([(INFO, GeneratorsFound 1)],
      Inr ([[0, 50, 10, 100, - 100, 51 / 50, 100, 0, 80, 10,
             0, 0, 0, 0, 0, 0, 0, 0, 0, 0, 0]], []))"
  by code_simp

subsection \<open>The bus reader\<close>

declare parse_buses_loop.simps [simp del]

lemma parse_buses_loop_step:
  "parse_buses_loop version (i # name # fs) reader buses busmap c =
     (if terminator i then ret (buses, busmap, c, reader)
      else (case bus_record version (i # name # fs) of
              Inl e \<Rightarrow> raise e
            | Inr bus \<Rightarrow>
                (case reader of
                   [] \<Rightarrow> raise StopIteration
                 | a # b \<Rightarrow>
                     parse_buses_loop version a b (buses @ [bus])
                       (busmap(i \<mapsto> c, strip_quote name \<mapsto> c)) (Suc c))))"
  by (subst parse_buses_loop.simps) (simp add: item_def)

lemma parse_buses_loop_end:
  "terminator_row t \<Longrightarrow>
   parse_buses_loop version t reader buses busmap c = ret (buses, busmap, c, reader)"
  by (subst parse_buses_loop.simps)
    (auto simp: terminator_row_def item_def split: list.splits)

lemma parse_buses_loop_rows:
  assumes "list_all (bus_row_ok version) rws" "terminator_row t"
  shows "parse_buses_loop version (hd (rws @ t # rest)) (tl (rws @ t # rest)) buses m c =
     ([], Inr (buses @ map (\<lambda>r. projr (bus_record version r)) rws,
               busmap_after rws c m, c + length rws, rest))"
  using assms
proof (induction rws arbitrary: buses m c)
  case Nil
  then show ?case by (simp add: parse_buses_loop_end ret_def)
next
  case (Cons r rs)
  then obtain i name fs where r: "r = i # name # fs" and nt: "\<not> terminator i"
    by (cases r; cases "tl r") (auto simp: bus_row_ok_def data_row_def)
  from Cons.prems obtain bus where b: "bus_record version r = Inr bus"
    by (cases "bus_record version r") (auto simp: bus_row_ok_def)
  have ne: "rs @ t # rest \<noteq> []" by simp
  have "parse_buses_loop version r (rs @ t # rest) buses m c =
      parse_buses_loop version (hd (rs @ t # rest)) (tl (rs @ t # rest)) (buses @ [bus])
        (m(i \<mapsto> c, strip_quote name \<mapsto> c)) (Suc c)"
    using nt b by (simp add: r parse_buses_loop_step list_case_nonempty [OF ne])
  also have "\<dots> = ([], Inr ((buses @ [bus]) @ map (\<lambda>r. projr (bus_record version r)) rs,
               busmap_after rs (Suc c) (m(i \<mapsto> c, strip_quote name \<mapsto> c)),
               Suc c + length rs, rest))"
    using Cons.prems by (intro Cons.IH) simp_all
  finally show ?case
    using b by (simp add: r bus_keys_def)
qed

lemma put_keys_apply:
  "foldl (\<lambda>m k. m(k \<mapsto> c)) m ks k = (if k \<in> set ks then Some c else m k)"
  by (induction ks arbitrary: m) auto

lemma busmap_after_other:
  "k \<notin> set (concat (map bus_keys rws)) \<Longrightarrow> busmap_after rws c m k = m k"
  by (induction rws arbitrary: c m) (auto simp: put_keys_apply)

lemma busmap_after_dom:
  "dom (busmap_after rws c m) = dom m \<union> set (concat (map bus_keys rws))"
proof (induction rws arbitrary: c m)
  case Nil
  then show ?case by simp
next
  case (Cons r rs)
  have "dom (foldl (\<lambda>m k. m(k \<mapsto> c)) m (bus_keys r)) = dom m \<union> set (bus_keys r)"
    by (auto simp: dom_def put_keys_apply)
  then show ?case by (auto simp: Cons.IH)
qed

lemma busmap_after_last:
  assumes "i < length rws" "k \<in> set (bus_keys (rws ! i))"
    and "\<forall>j. i < j \<and> j < length rws \<longrightarrow> k \<notin> set (bus_keys (rws ! j))"
  shows "busmap_after rws c m k = Some (c + i)"
  using assms
proof (induction rws arbitrary: c m i)
  case Nil
  then show ?case by simp
next
  case (Cons r rs)
  show ?case
  proof (cases i)
    case 0
    have "k \<notin> set (concat (map bus_keys rs))"
    proof
      assume "k \<in> set (concat (map bus_keys rs))"
      then obtain r' where "r' \<in> set rs" "k \<in> set (bus_keys r')"
        by auto
      then obtain j where "j < length rs" "k \<in> set (bus_keys (rs ! j))"
        by (metis in_set_conv_nth)
      with Cons.prems(3) [rule_format, of "Suc j"] 0 show False by simp
    qed
    then show ?thesis
      using Cons.prems(2) 0 by (simp add: busmap_after_other put_keys_apply)
  next
    case (Suc i')
    have "busmap_after rs (Suc c) (foldl (\<lambda>m k. m(k \<mapsto> c)) m (bus_keys r)) k
        = Some (Suc c + i')"
    proof (rule Cons.IH)
      show "i' < length rs" using Cons.prems(1) Suc by simp
      show "k \<in> set (bus_keys (rs ! i'))" using Cons.prems(2) Suc by simp
      show "\<forall>j. i' < j \<and> j < length rs \<longrightarrow> k \<notin> set (bus_keys (rs ! j))"
      proof (intro allI impI)
        fix j assume "i' < j \<and> j < length rs"
        with Cons.prems(3) [rule_format, of "Suc j"] Suc
        show "k \<notin> set (bus_keys (rs ! j))" by simp
      qed
    qed
    then show ?thesis using Suc by simp
  qed
qed

lemma parse_buses_result:
  assumes "list_all (bus_row_ok version) rws" "terminator_row t"
  shows "parse_buses (rws @ t # rest) version =
     ([(INFO, BusesFound (length rws))],
      Inr (map (\<lambda>r. projr (bus_record version r)) rws, busmap_after rws 0 Map.empty, rest))"
proof -
  have ne: "rws @ t # rest \<noteq> []" by simp
  show ?thesis
    using parse_buses_loop_rows [OF assms, of rest "[]" Map.empty 0]
    by (simp add: parse_buses_def next_row_def list_case_nonempty [OF ne]
        bindIO_simps after_simps ret_def)
qed

lemma distinct_concat_nth:
  assumes "distinct (concat (map f xs))" "i < j" "j < length xs"
  shows "set (f (xs ! i)) \<inter> set (f (xs ! j)) = {}"
  using assms
proof (induction xs arbitrary: i j)
  case Nil
  then show ?case by simp
next
  case (Cons x xs)
  from Cons.prems(2) obtain j' where j: "j = Suc j'" by (cases j) auto
  show ?case
  proof (cases i)
    case 0
    have "xs ! j' \<in> set xs"
      using Cons.prems(3) j by simp
    then have "set (f (xs ! j')) \<subseteq> set (concat (map f xs))"
      by auto
    then show ?thesis using Cons.prems(1) 0 j by auto
  next
    case (Suc i')
    then show ?thesis using Cons.prems j Cons.IH [of i' j'] by simp
  qed
qed

lemma bus_keys_length:
  "list_all (bus_row_ok version) rws \<Longrightarrow> length (concat (map bus_keys rws)) = 2 * length rws"
proof (induction rws)
  case Nil
  then show ?case by simp
next
  case (Cons r rs)
  then have "2 \<le> length r" by (simp add: bus_row_ok_def)
  then have "length (bus_keys r) = 2"
    by (cases r; cases "tl r") (auto simp: bus_keys_def)
  then show ?case using Cons by simp
qed

lemma scenario_buses_parsed:
  "parse_buses (scenario_bus_rows @ [''0''] # rest) 30 =
     ([(INFO, BusesFound 2)], Inr (two_buses, two_busmap, rest))"
proof -
  have 1: "list_all (bus_row_ok 30) scenario_bus_rows" by code_simp
  have 2: "terminator_row [''0'']" by code_simp
  have 3: "map (\<lambda>r. projr (bus_record 30 r)) scenario_bus_rows = two_buses" by code_simp
  have 4: "length scenario_bus_rows = 2" by code_simp
  have 5: "busmap_after scenario_bus_rows 0 Map.empty = two_busmap"
    by (simp add: scenario_bus_rows_def scenario_sections_def two_busmap_def bus_keys_def
        quoted_def strip_quote_def strip_chars_def)
  show ?thesis
    by (simp add: parse_buses_result [OF 1 2] 3 4 5)
qed

text \<open>
  C6, as amended.  For \<open>N\<close> well-formed bus rows followed by a terminator row,
  the bus reader returns a bus table of exactly \<open>N\<close> rows, the \<open>i\<close>-th being
  the record of the \<open>i\<close>-th data row, and a bus index table whose keys are
  exactly the ids and the quote-stripped names of the rows; a key maps to the
  index of the last row that carries it.  When the \<open>2N\<close> ids and names are
  pairwise distinct the table has exactly \<open>2N\<close> entries and every id and name
  maps to the zero-based index at which its bus was appended.
\<close>

theorem parse_buses_table:
  assumes "list_all (bus_row_ok version) rws" and "terminator_row t"
  shows "\<exists>buses busmap.
      parse_buses (rws @ t # rest) version =
        ([(INFO, BusesFound (length rws))], Inr (buses, busmap, rest))
      \<and> length buses = length rws
      \<and> list_all2 (\<lambda>r b. bus_record version r = Inr b) rws buses
      \<and> dom busmap = set (concat (map bus_keys rws))
      \<and> (\<forall>i k. i < length rws \<and> k \<in> set (bus_keys (rws ! i))
              \<and> (\<forall>j. i < j \<and> j < length rws \<longrightarrow> k \<notin> set (bus_keys (rws ! j)))
            \<longrightarrow> busmap k = Some i)
      \<and> (distinct (concat (map bus_keys rws))
            \<longrightarrow> card (dom busmap) = 2 * length rws
              \<and> (\<forall>i k. i < length rws \<and> k \<in> set (bus_keys (rws ! i)) \<longrightarrow> busmap k = Some i))"
proof -
  let ?buses = "map (\<lambda>r. projr (bus_record version r)) rws"
  let ?busmap = "busmap_after rws 0 Map.empty"
  have res: "parse_buses (rws @ t # rest) version =
        ([(INFO, BusesFound (length rws))], Inr (?buses, ?busmap, rest))"
    by (rule parse_buses_result [OF assms])
  have recs: "list_all2 (\<lambda>r b. bus_record version r = Inr b) rws ?buses"
  proof -
    have "\<forall>r\<in>set rws. bus_record version r = Inr (projr (bus_record version r))"
      using assms(1) by (auto simp: list_all_iff bus_row_ok_def)
    then show ?thesis by (simp add: list_all2_map2 list_all2_same)
  qed
  have dom: "dom ?busmap = set (concat (map bus_keys rws))"
    by (simp add: busmap_after_dom)
  have last: "?busmap k = Some i"
    if "i < length rws" "k \<in> set (bus_keys (rws ! i))"
      "\<forall>j. i < j \<and> j < length rws \<longrightarrow> k \<notin> set (bus_keys (rws ! j))" for i k
    using busmap_after_last [OF that, of 0 Map.empty] by simp
  have dist: "card (dom ?busmap) = 2 * length rws
      \<and> (\<forall>i k. i < length rws \<and> k \<in> set (bus_keys (rws ! i)) \<longrightarrow> ?busmap k = Some i)"
    if d: "distinct (concat (map bus_keys rws))"
  proof (intro conjI allI impI)
    have "card (dom ?busmap) = length (concat (map bus_keys rws))"
      unfolding dom using d by (rule distinct_card)
    then show "card (dom ?busmap) = 2 * length rws"
      by (simp only: bus_keys_length [OF assms(1)])
  next
    fix i k assume a: "i < length rws \<and> k \<in> set (bus_keys (rws ! i))"
    have "\<forall>j. i < j \<and> j < length rws \<longrightarrow> k \<notin> set (bus_keys (rws ! j))"
    proof (intro allI impI)
      fix j assume "i < j \<and> j < length rws"
      then have "set (bus_keys (rws ! i)) \<inter> set (bus_keys (rws ! j)) = {}"
        using distinct_concat_nth [OF d] by blast
      then show "k \<notin> set (bus_keys (rws ! j))" using a by auto
    qed
    then show "?busmap k = Some i" using a last by blast
  qed
  show ?thesis
    using res recs dom last dist by (intro exI [of _ ?buses] exI [of _ ?busmap]) simp
qed

theorem parse_buses_table_witness:
  "\<exists>buses busmap.
      parse_buses (scenario_bus_rows @ [''0''] # []) 30 =
        ([(INFO, BusesFound 2)], Inr (buses, busmap, []))
      \<and> length buses = 2 \<and> card (dom busmap) = 4
      \<and> busmap ''1'' = Some 0 \<and> busmap ''BUS1'' = Some 0
      \<and> busmap ''2'' = Some 1 \<and> busmap ''BUS2'' = Some 1"
proof -
  have 1: "list_all (bus_row_ok 30) scenario_bus_rows" by code_simp
  have 2: "terminator_row [''0'']" by code_simp
  have 3: "distinct (concat (map bus_keys scenario_bus_rows))" by code_simp
  have 4: "length scenario_bus_rows = 2" by code_simp
  have 5: "bus_keys (scenario_bus_rows ! 0) = [''1'', ''BUS1'']"
    "bus_keys (scenario_bus_rows ! Suc 0) = [''2'', ''BUS2'']" by code_simp+
  from parse_buses_table [OF 1 2, of "[]"] obtain buses busmap where
    r: "parse_buses (scenario_bus_rows @ [''0''] # []) 30 =
        ([(INFO, BusesFound (length scenario_bus_rows))], Inr (buses, busmap, []))"
    and l: "length buses = length scenario_bus_rows"
    and d: "distinct (concat (map bus_keys scenario_bus_rows))
            \<longrightarrow> card (dom busmap) = 2 * length scenario_bus_rows
              \<and> (\<forall>i k. i < length scenario_bus_rows \<and> k \<in> set (bus_keys (scenario_bus_rows ! i))
                    \<longrightarrow> busmap k = Some i)"
    by blast
  from d 3 have c: "card (dom busmap) = 2 * length scenario_bus_rows"
    and k: "\<And>i k. i < length scenario_bus_rows \<Longrightarrow> k \<in> set (bus_keys (scenario_bus_rows ! i))
                    \<Longrightarrow> busmap k = Some i"
    by blast+
  have "busmap ''1'' = Some 0" "busmap ''BUS1'' = Some 0"
    using k [of 0] by (simp_all add: 4 5)
  moreover have "busmap ''2'' = Some 1" "busmap ''BUS2'' = Some 1"
    using k [of 1] by (simp_all add: 4 5)
  ultimately show ?thesis
    using r l c by (simp add: 4)
qed

text \<open>
  The claim C6 as stated fails on two bus rows with the same name: the bus
  index table has 3 entries, not 4, and the name maps to row 1, although the
  first bus that carries it was appended at row 0.
\<close>

theorem parse_buses_counterexample:
  "card (dom (fst (snd (projr (snd (parse_buses (dup_name_rows @ [''0''] # []) 30)))))) = 3
   \<and> fst (snd (projr (snd (parse_buses (dup_name_rows @ [''0''] # []) 30)))) ''GEN'' = Some 1
   \<and> length (fst (projr (snd (parse_buses (dup_name_rows @ [''0''] # []) 30)))) = 2"
proof -
  have 1: "list_all (bus_row_ok 30) dup_name_rows" by code_simp
  have 2: "terminator_row [''0'']" by code_simp
  have 3: "concat (map bus_keys dup_name_rows) = [''1'', ''GEN'', ''2'', ''GEN'']" by code_simp
  have 4: "busmap_after dup_name_rows 0 Map.empty ''GEN'' = Some 1" by code_simp
  have 5: "length dup_name_rows = 2" by code_simp
  show ?thesis
    by (simp add: parse_buses_result [OF 1 2] busmap_after_dom 3 4 5 card_insert_if)
qed

subsection \<open>The load and branch readers on concrete rows\<close>

text \<open>
  C2.  A load row whose status field is \<open>0\<close> is still applied: \<^verbatim>\<open>bool("0")\<close> is
  true of the non-empty text, so the row at bus 2 overwrites the load fields
  of that bus with PL 10 and QL 5 instead of leaving the bus table unchanged.
\<close>

theorem load_status_zero_applied:
  "parse_loads [load_status_zero, [''0'']] two_buses two_busmap 30 =
     ([(INFO, LoadsFound 1)],
      Inr ([[1, 3, 0, 0, 0, 0, 1, 1, 0, 345, 1, 11 / 10, 9 / 10],
            [2, 1, 10, 5, 0, 0, 1, 1, 0, 345, 1, 11 / 10, 9 / 10]], []))"
  by code_simp

text \<open>
  C8.  In revision 32 an applied load row logs the not-scaled warning also when
  its scale field is exactly 1 or exactly 0: the test
  \<^verbatim>\<open>(scale != 0.0) or (scale != 1.0)\<close> holds of every number.
\<close>

theorem load_scale_always_warns:
  "parse_loads [load_scale ''1'', [''0'']] two_buses two_busmap 32 =
     ([(WARNING, LoadNotScaled ''2'' 1 1), (INFO, LoadsFound 1)],
      Inr ([[1, 3, 0, 0, 0, 0, 1, 1, 0, 345, 1, 11 / 10, 9 / 10],
            [2, 1, 10, 5, 0, 0, 1, 1, 0, 345, 1, 11 / 10, 9 / 10]], []))
   \<and> parse_loads [load_scale ''0'', [''0'']] two_buses two_busmap 32 =
     ([(WARNING, LoadNotScaled ''2'' 1 0), (INFO, LoadsFound 1)],
      Inr ([[1, 3, 0, 0, 0, 0, 1, 1, 0, 345, 1, 11 / 10, 9 / 10],
            [2, 1, 10, 5, 0, 0, 1, 1, 0, 345, 1, 11 / 10, 9 / 10]], []))"
  by code_simp

text \<open>
  C3.  For the branch row from bus 2 to bus 1, both resolved, the record's
  from-bus field is 2, the id of bus 2, but its to-bus field is 3: the type
  code of bus 1 (\<^verbatim>\<open>bus[tbus, 1]\<close>), which is neither the id 1 nor the row
  index 0 of that bus.
\<close>

theorem branch_tbus_is_bus_type:
  "parse_nontransformer_branches [branch_2_to_1, [''0'']] two_buses two_busmap =
     ([(INFO, BranchesFound 1)],
      Inr ([[2, 3, 1 / 100, 1 / 10, 1 / 50, 250, 250, 250, 0, 0, 1, - 360, 360]], []))"
  by code_simp

subsection \<open>The branch reader\<close>

declare parse_branches_loop.simps [simp del]

lemma branch_record_columns:
  assumes "branch_record row bus f t = Inr b"
  shows "length b = 13 \<and> fetch bus f 0 = Inr (b ! 0)
      \<and> float_at row 3 = Inr (b ! 2) \<and> float_at row 4 = Inr (b ! 3)
      \<and> float_at row 5 = Inr (b ! 4) \<and> float_at row 6 = Inr (b ! 5)
      \<and> float_at row 7 = Inr (b ! 6) \<and> float_at row 8 = Inr (b ! 7)
      \<and> b ! 8 = 0 \<and> b ! 9 = 0
      \<and> float_at row 13 = Inr (b ! 10)
      \<and> b ! 11 = - 360 \<and> b ! 12 = 360"
  using assms
  by (auto simp: branch_record_def set_float_def bindE_def zeros_def nth_list_update
      split: sum.splits)

lemma branch_row_result:
  "branch_row (i # j # fs) bus busmap branches =
     (not_found_log busmap i @ not_found_log busmap j,
      if branch_resolves busmap (i # j # fs)
      then (case branch_record (i # j # fs) bus (the (busmap (strip_quote i)))
                  (the (busmap (strip_quote j))) of
              Inl e \<Rightarrow> Inl e
            | Inr b \<Rightarrow> Inr (branches @ [b]))
      else Inr branches)"
  by (auto simp: branch_row_def item_def bindIO_simps busidx_log branch_resolves_def
      resolves_def after_simps lift_def ret_def raise_def
      split: option.splits sum.splits)

lemma parse_branches_loop_step:
  "parse_branches_loop bus busmap (f # fs) reader branches c =
     (if terminator f then ret (branches, c, reader)
      else (case branch_row (f # fs) bus busmap branches of
              (l, Inl e) \<Rightarrow> (l, Inl e)
            | (l, Inr branches') \<Rightarrow>
                (case reader of
                   [] \<Rightarrow> (l, Inl StopIteration)
                 | a # b \<Rightarrow> after l (parse_branches_loop bus busmap a b branches' (Suc c)))))"
  by (subst parse_branches_loop.simps) (simp add: item_def)

lemma parse_branches_loop_rows:
  assumes "list_all branch_row_ok rws" "terminator_row t"
    and "list_all (branch_record_ok bus busmap) (filter (branch_resolves busmap) rws)"
  shows "parse_branches_loop bus busmap (hd (rws @ t # rest)) (tl (rws @ t # rest)) branches c =
     (concat (map (\<lambda>r. not_found_log busmap (r ! 0) @ not_found_log busmap (r ! 1)) rws),
      Inr (branches @ map (branch_of bus busmap) (filter (branch_resolves busmap) rws),
           c + length rws, rest))"
  using assms
proof (induction rws arbitrary: branches c)
  case Nil
  then obtain f fs where "t = f # fs" "terminator f"
    by (auto simp: terminator_row_def split: list.splits)
  then show ?case
    by (simp add: parse_branches_loop_step ret_def)
next
  case (Cons r rs)
  then obtain i j fs where r: "r = i # j # fs" and nt: "\<not> terminator i"
    by (cases r; cases "tl r") (auto simp: branch_row_ok_def data_row_def)
  have ne: "rs @ t # rest \<noteq> []" by simp
  let ?l = "not_found_log busmap i @ not_found_log busmap j"
  show ?case
  proof (cases "branch_resolves busmap r")
    case True
    with Cons.prems obtain b where
      b: "branch_record r bus (the (busmap (strip_quote (r ! 0))))
            (the (busmap (strip_quote (r ! 1)))) = Inr b"
      by (cases "branch_record r bus (the (busmap (strip_quote (r ! 0))))
            (the (busmap (strip_quote (r ! 1))))") (auto simp: branch_record_ok_def)
    have row: "branch_row r bus busmap branches = (?l, Inr (branches @ [b]))"
      using True b by (simp add: r branch_row_result)
    have ih: "parse_branches_loop bus busmap (hd (rs @ t # rest)) (tl (rs @ t # rest))
        (branches @ [b]) (Suc c) =
      (concat (map (\<lambda>r. not_found_log busmap (r ! 0) @ not_found_log busmap (r ! 1)) rs),
       Inr ((branches @ [b]) @ map (branch_of bus busmap) (filter (branch_resolves busmap) rs),
           Suc c + length rs, rest))"
      using Cons.prems True by (intro Cons.IH) simp_all
    have "parse_branches_loop bus busmap r (rs @ t # rest) branches c =
        after ?l (parse_branches_loop bus busmap (hd (rs @ t # rest)) (tl (rs @ t # rest))
            (branches @ [b]) (Suc c))"
      using nt row by (simp add: r parse_branches_loop_step list_case_nonempty [OF ne])
    then show ?thesis
      using True b by (simp add: ih after_simps branch_of_def) (simp add: r)
  next
    case False
    have row: "branch_row r bus busmap branches = (?l, Inr branches)"
      using False by (simp add: r branch_row_result)
    have ih: "parse_branches_loop bus busmap (hd (rs @ t # rest)) (tl (rs @ t # rest))
        branches (Suc c) =
      (concat (map (\<lambda>r. not_found_log busmap (r ! 0) @ not_found_log busmap (r ! 1)) rs),
       Inr (branches @ map (branch_of bus busmap) (filter (branch_resolves busmap) rs),
           Suc c + length rs, rest))"
      using Cons.prems False by (intro Cons.IH) simp_all
    have "parse_branches_loop bus busmap r (rs @ t # rest) branches c =
        after ?l (parse_branches_loop bus busmap (hd (rs @ t # rest)) (tl (rs @ t # rest))
            branches (Suc c))"
      using nt row by (simp add: r parse_branches_loop_step list_case_nonempty [OF ne])
    then show ?thesis
      using False by (simp add: ih after_simps) (simp add: r)
  qed
qed

text \<open>
  The branch reader on branch rows followed by a terminator row, where the
  records of the resolving rows can be built: exactly one record per row both
  of whose bus ids resolve, in row order, with the fields described by
  \<open>branch_columns\<close>; a row with an unresolved id appends nothing and logs an
  error for each such id; the count of rows read is logged.
\<close>

theorem parse_branches_records:
  assumes "list_all branch_row_ok rws" and "terminator_row t"
    and "list_all (branch_record_ok bus busmap) (filter (branch_resolves busmap) rws)"
  shows "\<exists>branches. parse_nontransformer_branches (rws @ t # rest) bus busmap =
            (concat (map (\<lambda>r. not_found_log busmap (r ! 0) @ not_found_log busmap (r ! 1)) rws)
               @ [(INFO, BranchesFound (length rws))], Inr (branches, rest))
          \<and> list_all2 (branch_columns bus busmap) (filter (branch_resolves busmap) rws) branches"
proof -
  let ?brs = "map (branch_of bus busmap) (filter (branch_resolves busmap) rws)"
  have ne: "rws @ t # rest \<noteq> []" by simp
  have "parse_nontransformer_branches (rws @ t # rest) bus busmap =
      (concat (map (\<lambda>r. not_found_log busmap (r ! 0) @ not_found_log busmap (r ! 1)) rws)
         @ [(INFO, BranchesFound (length rws))], Inr (?brs, rest))"
    using parse_branches_loop_rows [OF assms, of rest "[]" 0]
    by (simp add: parse_nontransformer_branches_def next_row_def list_case_nonempty [OF ne]
        bindIO_simps after_simps ret_def)
  moreover have "list_all2 (branch_columns bus busmap) (filter (branch_resolves busmap) rws) ?brs"
  proof -
    have "\<forall>r\<in>set (filter (branch_resolves busmap) rws).
        branch_columns bus busmap r (branch_of bus busmap r)"
    proof
      fix r assume "r \<in> set (filter (branch_resolves busmap) rws)"
      with assms(3) have "branch_record_ok bus busmap r" by (simp add: list_all_iff)
      then obtain b where
        "branch_record r bus (the (busmap (strip_quote (r ! 0))))
            (the (busmap (strip_quote (r ! 1)))) = Inr b"
        by (cases "branch_record r bus (the (busmap (strip_quote (r ! 0))))
            (the (busmap (strip_quote (r ! 1))))") (auto simp: branch_record_ok_def)
      with branch_record_columns [OF this]
      show "branch_columns bus busmap r (branch_of bus busmap r)"
        by (simp add: branch_columns_def branch_of_def)
    qed
    then show ?thesis
      by (simp add: list_all2_map2 list_all2_same)
  qed
  ultimately show ?thesis by blast
qed

theorem parse_branches_records_witness:
  "\<exists>branches. parse_nontransformer_branches
        ([branch_2_to_1, branch_unknown_bus] @ [''0''] # []) two_buses two_busmap =
            ([(ERROR, BusNotFound ''9''), (INFO, BranchesFound 2)], Inr (branches, []))
          \<and> list_all2 (branch_columns two_buses two_busmap) [branch_2_to_1] branches"
proof -
  have 1: "list_all branch_row_ok [branch_2_to_1, branch_unknown_bus]"
    by code_simp
  have 2: "terminator_row [''0'']"
    by code_simp
  have 3: "filter (branch_resolves two_busmap) [branch_2_to_1, branch_unknown_bus]
      = [branch_2_to_1]"
    by code_simp
  have 4: "list_all (branch_record_ok two_buses two_busmap) [branch_2_to_1]"
    by code_simp
  have 5: "concat (map (\<lambda>r. not_found_log two_busmap (r ! 0) @ not_found_log two_busmap (r ! 1))
       [branch_2_to_1, branch_unknown_bus]) = [(ERROR, BusNotFound ''9'')]"
    by code_simp
  show ?thesis
    using parse_branches_records [of "[branch_2_to_1, branch_unknown_bus]"
        "[''0'']" two_buses two_busmap "[]"] 1 2 4
    unfolding 3 5 by (simp add: numeral_2_eq_2)
qed

subsection \<open>The load reader\<close>

declare parse_loads_loop.simps [simp del]

lemma map_length_update:
  "map length (bus[k := (bus ! k)[a := u, b := v]]) = map length bus"
  by (cases "k < length bus") (simp_all add: map_update list_update_same_conv list_update_beyond)

lemma load_effect_widths: "map length (load_effect busmap bus row) = map length bus"
  by (simp add: load_effect_def map_length_update)

lemma load_row_skipped:
  assumes "\<not> load_applies busmap (i # x # st # fs)"
  shows "load_row (i # x # st # fs) bus busmap version = (not_found_log busmap i, Inr bus)"
  using assms
  by (auto simp: load_row_def item_def bindIO_simps busidx_log load_applies_def
      resolves_def after_simps ret_def bool_str_def not_found_log_def split: option.splits)

lemma bindIO_if_logger:
  "bindIO (if c then logger lv m else ret ()) g = after (if c then [(lv, m)] else []) (g ())"
  by (simp add: bindIO_simps after_simps)

lemma scale_test: "(scale :: real) \<noteq> 0 \<or> scale \<noteq> 1"
  by auto

lemma load_row_applied:
  assumes "load_applies busmap (i # x # st # fs)"
    and "load_index_ok (map length bus) busmap (i # x # st # fs)"
    and "load_columns_parse version (i # x # st # fs)"
  shows "\<exists>log. load_row (i # x # st # fs) bus busmap version =
            (log, Inr (load_effect busmap bus (i # x # st # fs)))
          \<and> list_all (\<lambda>e. fst e = WARNING) log"
proof -
  let ?row = "i # x # st # fs"
  from assms(1) obtain idx where idx: "busmap (strip_quote i) = Some idx" and st: "st \<noteq> []"
    by (auto simp: load_applies_def resolves_def)
  from assms(2) idx have ok: "idx < length bus" "4 \<le> length (bus ! idx)"
    by (auto simp: load_index_ok_def)
  have p: "\<exists>v. float_at ?row k = Inr v" if "k \<in> set [5, 6, 7, 8, 9, 10]" for k
    using assms(3) that unfolding load_columns_parse_def
    by (cases "float_at ?row k") (auto simp: list_all_iff)
  obtain PL where f5: "float_at ?row 5 = Inr PL" using p [of 5] by auto
  obtain QL where f6: "float_at ?row 6 = Inr QL" using p [of 6] by auto
  obtain Ip where f7: "float_at ?row 7 = Inr Ip" using p [of 7] by auto
  obtain Iq where f8: "float_at ?row 8 = Inr Iq" using p [of 8] by auto
  obtain Yp where f9: "float_at ?row 9 = Inr Yp" using p [of 9] by auto
  obtain Yq where f10: "float_at ?row 10 = Inr Yq" using p [of 10] by auto
  note f = f5 f6 f7 f8 f9 f10
  have sc: "\<exists>scale. float_at ?row 12 = Inr scale" if "version = 32"
    using assms(3) that unfolding load_columns_parse_def
    by (cases "float_at ?row 12") (auto simp: list_all_iff)
  have bi: "busidx i busmap = ret (Some idx)"
    using idx by (simp add: busidx_def)
  have eff: "load_effect busmap bus ?row = bus[idx := (bus ! idx)[2 := PL, 3 := QL]]"
    using assms(1) idx f by (simp add: load_effect_def)
  have s1: "store bus idx 2 PL = Inr (bus[idx := (bus ! idx)[2 := PL]])"
    using ok by (simp add: store_def)
  have s2: "store (bus[idx := (bus ! idx)[2 := PL]]) idx 3 QL
      = Inr (bus[idx := (bus ! idx)[2 := PL, 3 := QL]])"
    using ok by (simp add: store_def)
  let ?cc = "if truthy Ip \<or> truthy Iq
             then [(WARNING, ConstantCurrentIgnored Ip Iq i idx)] else []"
  let ?ca = "if truthy Yp \<or> truthy Yq
             then [(WARNING, ConstantAdmittanceIgnored Yp Yq i idx)] else []"
  have w: "list_all (\<lambda>e. fst e = WARNING) (?cc @ ?ca)"
    by simp
  show ?thesis
  proof (cases "version = 32")
    case True
    with sc obtain scale where s: "float_at ?row 12 = Inr scale" by blast
    have "load_row ?row bus busmap version =
        ((?cc @ ?ca) @ [(WARNING, LoadNotScaled i idx scale)],
         Inr (bus[idx := (bus ! idx)[2 := PL, 3 := QL]]))"
      using st
      by (simp add: load_row_def item_def bindIO_simps bi bool_str_def bindE_def f s s1 s2
          True bindIO_if_logger scale_test after_simps)
    then show ?thesis
      using w by (simp only: eff list_all_append) simp
  next
    case False
    have "load_row ?row bus busmap version =
        (?cc @ ?ca, Inr (bus[idx := (bus ! idx)[2 := PL, 3 := QL]]))"
      using st
      by (simp add: load_row_def item_def bindIO_simps bi bool_str_def bindE_def f s1 s2
          False bindIO_if_logger after_simps)
    then show ?thesis
      using w by (simp only: eff) blast
  qed
qed

lemma parse_loads_loop_step:
  "parse_loads_loop version busmap (f # fs) reader bus c =
     (if terminator f then ret (bus, c, reader)
      else (case load_row (f # fs) bus busmap version of
              (l, Inl e) \<Rightarrow> (l, Inl e)
            | (l, Inr bus') \<Rightarrow>
                (case reader of
                   [] \<Rightarrow> (l, Inl StopIteration)
                 | a # b \<Rightarrow> after l (parse_loads_loop version busmap a b bus' (Suc c)))))"
  by (subst parse_loads_loop.simps) (simp add: item_def)

lemma load_row_effect:
  assumes "load_row_ok r"
    and "load_applies busmap r \<longrightarrow>
           load_index_ok (map length bus) busmap r \<and> load_columns_parse version r"
  shows "\<exists>l. load_row r bus busmap version = (l, Inr (load_effect busmap bus r))
          \<and> list_all (\<lambda>e. fst e \<noteq> INFO) l
          \<and> set (not_found_log busmap (r ! 0)) \<subseteq> set l"
proof -
  from assms(1) obtain i x st fs where r: "r = i # x # st # fs"
    by (cases r; cases "tl r"; cases "tl (tl r)") (auto simp: load_row_ok_def)
  show ?thesis
  proof (cases "load_applies busmap r")
    case True
    with assms(2) have "load_index_ok (map length bus) busmap r" "load_columns_parse version r"
      by simp_all
    from load_row_applied [OF True [unfolded r] this [unfolded r]] obtain l where
      l: "load_row r bus busmap version = (l, Inr (load_effect busmap bus r))"
        "list_all (\<lambda>e. fst e = WARNING) l"
      unfolding r by blast
    have "not_found_log busmap (r ! 0) = []"
      using True by (simp add: load_applies_def not_found_log_def)
    moreover have "list_all (\<lambda>e. fst e \<noteq> INFO) l"
      using l(2) by (auto simp: list_all_iff)
    ultimately show ?thesis using l(1) by simp
  next
    case False
    have "load_row r bus busmap version = (not_found_log busmap i, Inr bus)"
      using False unfolding r by (rule load_row_skipped)
    moreover have "load_effect busmap bus r = bus"
      using False by (simp add: load_effect_def)
    moreover have "list_all (\<lambda>e. fst e \<noteq> INFO) (not_found_log busmap i)"
      by (simp add: not_found_log_def)
    ultimately show ?thesis by (simp add: r)
  qed
qed

lemma parse_loads_loop_rows:
  assumes "list_all load_row_ok rws" "terminator_row t"
    and "list_all (load_index_ok (map length bus) busmap) (filter (load_applies busmap) rws)"
    and "list_all (load_columns_parse version) (filter (load_applies busmap) rws)"
  shows "\<exists>log. parse_loads_loop version busmap (hd (rws @ t # rest)) (tl (rws @ t # rest)) bus c =
            (log, Inr (foldl (load_effect busmap) bus rws, c + length rws, rest))
          \<and> list_all (\<lambda>e. fst e \<noteq> INFO) log
          \<and> set (concat (map (\<lambda>r. not_found_log busmap (r ! 0)) rws)) \<subseteq> set log"
  using assms
proof (induction rws arbitrary: bus c)
  case Nil
  then obtain f fs where "t = f # fs" "terminator f"
    by (auto simp: terminator_row_def split: list.splits)
  then show ?case
    by (simp add: parse_loads_loop_step ret_def)
next
  case (Cons r rs)
  then obtain f fs where r: "r = f # fs" and nt: "\<not> terminator f"
    by (cases r) (auto simp: load_row_ok_def data_row_def)
  have ne: "rs @ t # rest \<noteq> []" by simp
  have "load_row_ok r" using Cons.prems by simp
  moreover have "load_applies busmap r \<longrightarrow>
           load_index_ok (map length bus) busmap r \<and> load_columns_parse version r"
    using Cons.prems by (auto split: if_splits)
  ultimately obtain l where
    l: "load_row r bus busmap version = (l, Inr (load_effect busmap bus r))"
      "list_all (\<lambda>e. fst e \<noteq> INFO) l"
      "set (not_found_log busmap (r ! 0)) \<subseteq> set l"
    using load_row_effect by blast
  have "\<exists>log. parse_loads_loop version busmap (hd (rs @ t # rest)) (tl (rs @ t # rest))
          (load_effect busmap bus r) (Suc c) =
            (log, Inr (foldl (load_effect busmap) (load_effect busmap bus r) rs,
                       Suc c + length rs, rest))
          \<and> list_all (\<lambda>e. fst e \<noteq> INFO) log
          \<and> set (concat (map (\<lambda>r. not_found_log busmap (r ! 0)) rs)) \<subseteq> set log"
    using Cons.prems by (intro Cons.IH) (auto simp: load_effect_widths split: if_splits)
  then obtain log where
    log: "parse_loads_loop version busmap (hd (rs @ t # rest)) (tl (rs @ t # rest))
          (load_effect busmap bus r) (Suc c) =
            (log, Inr (foldl (load_effect busmap) (load_effect busmap bus r) rs,
                       Suc c + length rs, rest))"
      "list_all (\<lambda>e. fst e \<noteq> INFO) log"
      "set (concat (map (\<lambda>r. not_found_log busmap (r ! 0)) rs)) \<subseteq> set log"
    by blast
  have "parse_loads_loop version busmap r (rs @ t # rest) bus c =
      after l (parse_loads_loop version busmap (hd (rs @ t # rest)) (tl (rs @ t # rest))
         (load_effect busmap bus r) (Suc c))"
    using nt l(1) by (simp add: r parse_loads_loop_step list_case_nonempty [OF ne])
  then have "parse_loads_loop version busmap (hd ((r # rs) @ t # rest))
        (tl ((r # rs) @ t # rest)) bus c =
      (l @ log, Inr (foldl (load_effect busmap) bus (r # rs), c + length (r # rs), rest))"
    by (simp add: log(1) after_simps)
  moreover have "list_all (\<lambda>e. fst e \<noteq> INFO) (l @ log)"
    using l(2) log(2) by simp
  moreover have "set (concat (map (\<lambda>r. not_found_log busmap (r ! 0)) (r # rs))) \<subseteq> set (l @ log)"
    using l(3) log(3) by auto
  ultimately show ?case by blast
qed

text \<open>
  The load reader on load rows followed by a terminator row, where the rows
  that apply name a bus row of the table and have numbers in the columns read:
  each row has the effect \<open>load_effect\<close> on the bus table, so a row with an empty
  status field or an unresolved bus id leaves it unchanged and any other row
  overwrites exactly Pd and Qd of its bus; the events logged before the count
  are warnings and errors, among them the error of every unresolved id, and the
  reader goes on to the terminator.
\<close>

theorem parse_loads_effect:
  assumes "list_all load_row_ok rws" and "terminator_row t"
    and "list_all (load_index_ok (map length bus) busmap) (filter (load_applies busmap) rws)"
    and "list_all (load_columns_parse version) (filter (load_applies busmap) rws)"
  shows "\<exists>log. parse_loads (rws @ t # rest) bus busmap version =
            (log @ [(INFO, LoadsFound (length rws))],
             Inr (foldl (load_effect busmap) bus rws, rest))
          \<and> list_all (\<lambda>e. fst e \<noteq> INFO) log
          \<and> set (concat (map (\<lambda>r. not_found_log busmap (r ! 0)) rws)) \<subseteq> set log"
proof -
  have ne: "rws @ t # rest \<noteq> []" by simp
  from parse_loads_loop_rows [OF assms, of rest 0] obtain log where
    log: "parse_loads_loop version busmap (hd (rws @ t # rest)) (tl (rws @ t # rest)) bus 0 =
            (log, Inr (foldl (load_effect busmap) bus rws, 0 + length rws, rest))"
      "list_all (\<lambda>e. fst e \<noteq> INFO) log"
      "set (concat (map (\<lambda>r. not_found_log busmap (r ! 0)) rws)) \<subseteq> set log"
    by blast
  have "parse_loads (rws @ t # rest) bus busmap version =
            (log @ [(INFO, LoadsFound (length rws))],
             Inr (foldl (load_effect busmap) bus rws, rest))"
    using log(1)
    by (simp add: parse_loads_def next_row_def list_case_nonempty [OF ne]
        bindIO_simps after_simps ret_def)
  then show ?thesis using log(2,3) by blast
qed

theorem parse_loads_effect_witness:
  "\<exists>log. parse_loads ([load_scale ''1'', load_empty_status, load_unknown_bus] @ [''0''] # [])
            two_buses two_busmap 30 =
            (log @ [(INFO, LoadsFound 3)],
             Inr ([[1, 3, 0, 0, 0, 0, 1, 1, 0, 345, 1, 11 / 10, 9 / 10],
                   [2, 1, 10, 5, 0, 0, 1, 1, 0, 345, 1, 11 / 10, 9 / 10]], []))
          \<and> list_all (\<lambda>e. fst e \<noteq> INFO) log
          \<and> (ERROR, BusNotFound ''9'') \<in> set log"
proof -
  let ?rws = "[load_scale ''1'', load_empty_status, load_unknown_bus]"
  have 1: "list_all load_row_ok ?rws"
    by code_simp
  have 2: "terminator_row [''0'']"
    by code_simp
  have 3: "filter (load_applies two_busmap) ?rws = [load_scale ''1'']"
    by code_simp
  have 4: "list_all (load_index_ok (map length two_buses) two_busmap) [load_scale ''1'']"
    by code_simp
  have 5: "list_all (load_columns_parse 30) [load_scale ''1'']"
    by code_simp
  have 6: "foldl (load_effect two_busmap) two_buses ?rws =
      [[1, 3, 0, 0, 0, 0, 1, 1, 0, 345, 1, 11 / 10, 9 / 10],
       [2, 1, 10, 5, 0, 0, 1, 1, 0, 345, 1, 11 / 10, 9 / 10]]"
    by code_simp
  have 7: "concat (map (\<lambda>r. not_found_log two_busmap (r ! 0)) ?rws) = [(ERROR, BusNotFound ''9'')]"
    by code_simp
  show ?thesis
    using parse_loads_effect [of ?rws "[''0'']" two_buses two_busmap 30 "[]"] 1 2 4 5
    unfolding 3 6 7 by (simp add: numeral_3_eq_3)
qed

subsection \<open>Bus records\<close>

lemma set_float_shape:
  "set_float rec k row j = Inr rec' \<Longrightarrow>
   length rec' = length rec \<and> (\<forall>n. n \<noteq> k \<longrightarrow> rec' ! n = rec ! n)"
  by (auto simp: set_float_def bindE_def split: sum.splits)

lemma set_int_shape:
  "set_int rec k row j = Inr rec' \<Longrightarrow>
   length rec' = length rec \<and> (\<forall>n. n \<noteq> k \<longrightarrow> rec' ! n = rec ! n)"
  by (auto simp: set_int_def bindE_def split: sum.splits)

lemma bindE_Inr: "bindE m f = Inr y \<Longrightarrow> \<exists>x. m = Inr x \<and> f x = Inr y"
  by (cases m) (auto simp: bindE_def)

text \<open>
  Every bus record has 13 fields, zero loads, and the voltage limits 1.1 and
  0.9, whatever the revision; its first field is the bus id and its tenth the
  base voltage.
\<close>

theorem bus_record_defaults:
  assumes "bus_record version busdata = Inr bus"
  shows "length bus = 13 \<and> bus ! 2 = 0 \<and> bus ! 3 = 0
       \<and> bus ! 11 = 11 / 10 \<and> bus ! 12 = 9 / 10
       \<and> int_at busdata 0 = Inr (bus ! 0) \<and> float_at busdata 2 = Inr (bus ! 9)"
proof -
  from assms obtain b1 b2 b3 b4 b5 where
    1: "set_int (zeros 13) 0 busdata 0 = Inr b1"
    and 2: "set_float b1 1 busdata 3 = Inr b2"
    and 3: "b3 = b2[2 := 0, 3 := 0]"
    and 4: "(if version \<in> set [29, 30] then
              bindE (set_float b3 4 busdata 4) (\<lambda>bus.
              bindE (set_float bus 5 busdata 5) (\<lambda>bus.
              bindE (set_int bus 6 busdata 6) (\<lambda>bus.
              bindE (set_float bus 7 busdata 8) (\<lambda>bus.
              bindE (set_float bus 8 busdata 9) (\<lambda>bus.
              set_float bus 10 busdata 7)))))
            else if version \<in> set [31, 32] then
              bindE (set_int b3 6 busdata 4) (\<lambda>bus.
              bindE (set_float bus 7 busdata 7) (\<lambda>bus.
              bindE (set_float bus 8 busdata 8) (\<lambda>bus.
              set_float bus 10 busdata 5)))
            else Inr b3) = Inr b4"
    and 5: "set_float b4 9 busdata 2 = Inr b5"
    and 6: "bus = b5[11 := 11 / 10, 12 := 9 / 10]"
    unfolding bus_record_def
    by (fastforce dest!: bindE_Inr)
  have s1: "length b1 = 13" "int_at busdata 0 = Inr (b1 ! 0)"
    using 1 by (auto simp: set_int_def bindE_def zeros_def split: sum.splits)
  have s2: "length b2 = 13" "b2 ! 0 = b1 ! 0"
    using set_float_shape [OF 2] s1 by auto
  have s3: "length b3 = 13" "b3 ! 0 = b1 ! 0" "b3 ! 2 = 0" "b3 ! 3 = 0"
    using s2 3 by auto
  have s4: "length b4 = 13 \<and> b4 ! 0 = b3 ! 0 \<and> b4 ! 2 = b3 ! 2 \<and> b4 ! 3 = b3 ! 3"
  proof (cases "version \<in> set [29, 30]")
    case True
    with 4 obtain c1 c2 c3 c4 c5 where
      "set_float b3 4 busdata 4 = Inr c1" "set_float c1 5 busdata 5 = Inr c2"
      "set_int c2 6 busdata 6 = Inr c3" "set_float c3 7 busdata 8 = Inr c4"
      "set_float c4 8 busdata 9 = Inr c5" "set_float c5 10 busdata 7 = Inr b4"
      by (simp only: if_True) (fastforce dest!: bindE_Inr)
    then show ?thesis
      using s3 by (auto dest!: set_float_shape set_int_shape)
  next
    case False
    show ?thesis
    proof (cases "version \<in> set [31, 32]")
      case True
      with 4 False obtain c1 c2 c3 where
        "set_int b3 6 busdata 4 = Inr c1" "set_float c1 7 busdata 7 = Inr c2"
        "set_float c2 8 busdata 8 = Inr c3" "set_float c3 10 busdata 5 = Inr b4"
        by (simp only: if_True if_False) (fastforce dest!: bindE_Inr)
      then show ?thesis
        using s3 by (auto dest!: set_float_shape set_int_shape)
    next
      case False
      with 4 \<open>version \<notin> set [29, 30]\<close> have "b4 = b3" by (simp only: if_False) simp
      then show ?thesis using s3 by simp
    qed
  qed
  have s5: "length b5 = 13" "b5 ! 0 = b4 ! 0" "b5 ! 2 = b4 ! 2" "b5 ! 3 = b4 ! 3"
    "float_at busdata 2 = Inr (b5 ! 9)"
    using 5 s4 by (auto simp: set_float_def bindE_def split: sum.splits)
  show ?thesis
    using s1 s3 s4 s5 6 by simp
qed

theorem bus_record_defaults_witness:
  "bus_record 30 (hd scenario_bus_rows) = Inr [1, 3, 0, 0, 0, 0, 1, 1, 0, 345, 1, 11 / 10, 9 / 10]
   \<and> int_at (hd scenario_bus_rows) 0 = Inr 1 \<and> float_at (hd scenario_bus_rows) 2 = Inr 345"
proof -
  have e: "bus_record 30 (hd scenario_bus_rows)
      = Inr [1, 3, 0, 0, 0, 0, 1, 1, 0, 345, 1, 11 / 10, 9 / 10]"
    by code_simp
  show ?thesis
    using bus_record_defaults [OF e] e by simp
qed

end
